theory Spec2Isabelle
  imports Complex_Main "HOL-Library.List_Lexorder" "HOL-Library.Char_ord"
    "HOL-Library.Code_Target_Nat"
begin

chapter \<open>The model of the code\<close>

section \<open>The arithmetic of \<open>double\<close>\<close>

text \<open>
  The scores of the sorted set are C++ \<open>double\<close>s, IEEE 754 binary64 numbers. Every
  finite double is an integer multiple of \<open>1 / 2 ^ 1074\<close>, the smallest subnormal number:
  \<open>Fin n\<close> is the number \<open>n / 2 ^ 1074\<close>, \<open>Fin 0\<close> is \<open>+0\<close> and \<open>NegZero\<close> is \<open>-0\<close>; so \<open>1.0\<close> is
  \<open>Fin (2 ^ 1074)\<close>. \<open>PInf\<close> and \<open>NInf\<close> are the infinities. The NaNs are one value \<open>NaN\<close>: the
  code never looks at the payload of a NaN.
\<close>

datatype double = Fin int | NegZero | PInf | NInf | NaN

text \<open>
  Rounding to nearest, ties to even, which is the rounding mode a C++ program runs in
  unless it changes it. \<open>shift_count a\<close> is the number of low bits that a positive integer
  \<open>a\<close> has beyond the 53 bits of a significand; \<open>round_nearest_even\<close> drops them and rounds
  the significand \<open>q\<close> up when the dropped part \<open>r\<close> is more than half a unit of \<open>q\<close>, or
  exactly half and \<open>q\<close> is odd. A sum of subnormal numbers has no bit to drop and is exact.
  A result of \<open>2 ^ 2098\<close> units, that is \<open>2 ^ 1024\<close>, or more is an infinity.
\<close>

function shift_count :: "int \<Rightarrow> nat" where
  "shift_count a = (if a < 2 ^ 53 then 0 else Suc (shift_count (a div 2)))"
  by pat_completeness auto
termination
  by (relation "measure nat") auto

declare shift_count.simps [simp del]

definition round_nearest_even :: "int \<Rightarrow> int" where
  "round_nearest_even a =
     (let k = shift_count a; q = a div 2 ^ k; r = a mod 2 ^ k
      in (if 2 ^ k < 2 * r \<or> (2 * r = 2 ^ k \<and> odd q) then q + 1 else q) * 2 ^ k)"

definition round_to_double :: "int \<Rightarrow> double" where
  "round_to_double n =
     (let m = round_nearest_even \<bar>n\<bar>
      in if 2 ^ 2098 \<le> m then (if n < 0 then NInf else PInf)
         else Fin (if n < 0 then - m else m))"

text \<open>
  The sum of two doubles: a NaN operand gives NaN, and so do two infinities of opposite
  sign; an infinity absorbs every finite number; the sum of two finite numbers is their
  exact sum, rounded. An exact sum of zero is \<open>+0\<close>, except that \<open>-0 + -0\<close> is \<open>-0\<close>.
\<close>

fun double_add :: "double \<Rightarrow> double \<Rightarrow> double" where
  "double_add NaN _ = NaN"
| "double_add _ NaN = NaN"
| "double_add PInf NInf = NaN"
| "double_add NInf PInf = NaN"
| "double_add PInf _ = PInf"
| "double_add _ PInf = PInf"
| "double_add NInf _ = NInf"
| "double_add _ NInf = NInf"
| "double_add NegZero NegZero = NegZero"
| "double_add NegZero (Fin b) = Fin b"
| "double_add (Fin a) NegZero = Fin a"
| "double_add (Fin a) (Fin b) = round_to_double (a + b)"

text \<open>
  The comparisons: every comparison with a NaN is false, the two zeros are equal, and the
  other numbers compare as their values do.
\<close>

fun fin_units :: "double \<Rightarrow> int" where
  "fin_units (Fin n) = n"
| "fin_units _ = 0"

fun double_less :: "double \<Rightarrow> double \<Rightarrow> bool" where
  "double_less NaN _ = False"
| "double_less _ NaN = False"
| "double_less PInf _ = False"
| "double_less _ PInf = True"
| "double_less _ NInf = False"
| "double_less NInf _ = True"
| "double_less a b = (fin_units a < fin_units b)"

fun double_less_eq :: "double \<Rightarrow> double \<Rightarrow> bool" where
  "double_less_eq NaN _ = False"
| "double_less_eq _ NaN = False"
| "double_less_eq _ PInf = True"
| "double_less_eq PInf _ = False"
| "double_less_eq NInf _ = True"
| "double_less_eq _ NInf = False"
| "double_less_eq a b = (fin_units a \<le> fin_units b)"

text \<open>
  \<open>a + b\<close>, \<open>a < b\<close> and \<open>a > b\<close> on doubles are these operations; \<open>0\<close> is \<open>+0\<close>.
\<close>

instantiation double :: "{zero, plus, ord}"
begin

definition zero_double :: double where
  "zero_double = Fin 0"

definition plus_double :: "double \<Rightarrow> double \<Rightarrow> double" where
  "plus_double a b = double_add a b"

definition less_double :: "double \<Rightarrow> double \<Rightarrow> bool" where
  "less_double a b = double_less a b"

definition less_eq_double :: "double \<Rightarrow> double \<Rightarrow> bool" where
  "less_eq_double a b = double_less_eq a b"

instance ..

end

text \<open>
  The real value of a double that is a number, and the integers \<open>n\<close> for which \<open>Fin n\<close> is
  a double: those that rounding leaves as they are.
\<close>

fun valof :: "double \<Rightarrow> real option" where
  "valof (Fin n) = Some (real_of_int n / 2 ^ 1074)"
| "valof NegZero = Some 0"
| "valof _ = None"

definition is_double :: "double \<Rightarrow> bool" where
  "is_double d = (case d of Fin n \<Rightarrow> round_to_double n = Fin n | _ \<Rightarrow> True)"

section \<open>Sorted-set index (src/structures/sset_lsa.hh)\<close>

text \<open>
  An \<open>sset_entry\<close> is one heap object that is linked into two intrusive containers at
  once: the dictionary \<open>_dict\<close> (ordered by key) and the list \<open>_list\<close> (ordered by score).
  Both containers hold the object itself, never a copy, so the model keeps an explicit
  store: \<open>mem\<close> maps an address to the object found there, \<open>live\<close> is the set of addresses
  the allocator handed out and has not destroyed yet, \<open>next_addr\<close> is the next address
  \<open>current_allocator().construct\<close> returns. The dictionary is a map from a key to the
  address of the entry with that key (two entries are equivalent for
  \<open>sset_entry::compare\<close> exactly when their key bytes are equal); the list is the sequence
  of linked addresses from \<open>begin()\<close> to \<open>end()\<close>.

  The type of the scores is a parameter \<open>'d\<close> of the model. The code is read at two
  instances. At \<open>double\<close> (above) the operations \<open>+\<close>, \<open><\<close> and \<open>>\<close> are those of the
  machine, with rounding, infinities and NaN. At \<open>real\<close> the scores are idealised: the
  comparisons of doubles that are not NaN are those of their real values, so a property
  of the order of the list that is proved for a linear order holds for the code as long
  as no score is NaN.
\<close>

type_synonym bytes = string
type_synonym addr = nat

record 'd sset_entry =
  entry_key :: bytes
  entry_score :: 'd

record 'd sset_lsa =
  mem :: "addr \<Rightarrow> 'd sset_entry"
  live :: "addr set"
  next_addr :: addr
  dict :: "bytes \<rightharpoonup> addr"
  lst :: "addr list"

definition sset_new :: "('d::zero) sset_lsa" where
  "sset_new = \<lparr>mem = (\<lambda>_. \<lparr>entry_key = [], entry_score = 0\<rparr>), live = {}, next_addr = 0,
               dict = Map.empty, lst = []\<rparr>"

text \<open>\<open>e->score()\<close> and \<open>e->key()\<close> for the entry at an address.\<close>

definition score_at :: "'d sset_lsa \<Rightarrow> addr \<Rightarrow> 'd" where
  "score_at s a = entry_score (mem s a)"

definition key_at :: "'d sset_lsa \<Rightarrow> addr \<Rightarrow> bytes" where
  "key_at s a = entry_key (mem s a)"

text \<open>\<open>current_allocator().construct<sset_entry>(key, score)\<close>: a fresh, unlinked object.\<close>

definition allocator_construct :: "'d sset_lsa \<Rightarrow> bytes \<Rightarrow> 'd \<Rightarrow> addr \<times> 'd sset_lsa" where
  "allocator_construct s k sc =
     (next_addr s,
      s\<lparr>mem := (mem s)(next_addr s := \<lparr>entry_key = k, entry_score = sc\<rparr>),
        live := insert (next_addr s) (live s),
        next_addr := Suc (next_addr s)\<rparr>)"

text \<open>\<open>current_allocator().destroy\<close> and \<open>current_deleter\<close>: the object is released.\<close>

definition allocator_destroy :: "'d sset_lsa \<Rightarrow> addr \<Rightarrow> 'd sset_lsa" where
  "allocator_destroy s a = s\<lparr>live := live s - {a}\<rparr>"

text \<open>\<open>sset_entry::update_score\<close>, through a pointer to the object.\<close>

definition entry_update_score :: "'d sset_lsa \<Rightarrow> addr \<Rightarrow> 'd \<Rightarrow> 'd sset_lsa" where
  "entry_update_score s a nscore = s\<lparr>mem := (mem s)(a := (mem s a)\<lparr>entry_score := nscore\<rparr>)\<rparr>"

text \<open>\<open>_list.erase(lit)\<close>: the node is unlinked, the object lives on.\<close>

definition list_erase :: "'d sset_lsa \<Rightarrow> addr \<Rightarrow> 'd sset_lsa" where
  "list_erase s a = s\<lparr>lst := remove1 a (lst s)\<rparr>"

text \<open>
  \<open>_dict.erase(dit)\<close> with an iterator to the node of the entry at \<open>a\<close>: the node is
  unlinked. In the source an iterator to an entry that is not linked is undefined
  behaviour; the model leaves the dictionary as it is.
\<close>

definition dict_erase :: "'d sset_lsa \<Rightarrow> addr \<Rightarrow> 'd sset_lsa" where
  "dict_erase s a =
     (if dict s (key_at s a) = Some a then s\<lparr>dict := (dict s)(key_at s a := None)\<rparr> else s)"

text \<open>
  The \<open>for\<close> loop of \<open>insert_ordered\<close> (lines 497-503) and the block after it
  (lines 504-512). \<open>pre\<close> holds the nodes the iterator has passed, \<open>trace\<close> the node
  visited last, the last argument the nodes from \<open>it\<close> to \<open>end()\<close>. When the loop is left
  without a return, \<open>it == _list.end()\<close> holds, so the final \<open>return false\<close> of the
  source is never reached.
\<close>

fun insert_scan :: "(addr \<Rightarrow> ('d::ord)) \<Rightarrow> addr \<Rightarrow> addr list \<Rightarrow> addr \<Rightarrow> addr list \<Rightarrow> bool \<times> addr list" where
  "insert_scan sc e pre trace [] =
     (if sc trace > sc e then (True, e # pre) else (True, pre @ [e]))"
| "insert_scan sc e pre trace (x # rest) =
     (if sc x > sc e then (True, pre @ e # x # rest)
      else insert_scan sc e (pre @ [x]) x rest)"

definition insert_ordered :: "('d::ord) sset_lsa \<Rightarrow> addr \<Rightarrow> bool \<times> 'd sset_lsa" where
  "insert_ordered s e =
     (case lst s of
        [] \<Rightarrow> (True, s\<lparr>lst := [e]\<rparr>)
      | x # xs \<Rightarrow>
          if score_at s e < score_at s x then (True, s\<lparr>lst := e # x # xs\<rparr>)
          else (case insert_scan (score_at s) e [] x (x # xs) of
                  (r, l) \<Rightarrow> (r, s\<lparr>lst := l\<rparr>)))"

text \<open>\<open>sset_lsa::update\<close> (lines 517-522).\<close>

definition update :: "('d::ord) sset_lsa \<Rightarrow> addr \<Rightarrow> bool \<times> 'd sset_lsa" where
  "update s e = insert_ordered (list_erase s e) e"

text \<open>
  \<open>sset_lsa::insert\<close> (lines 156-164). \<open>_dict.insert(*e)\<close> links the entry unless an
  entry with an equal key is linked already, and reports which.
\<close>

definition sset_insert :: "('d::ord) sset_lsa \<Rightarrow> addr \<Rightarrow> bool \<times> 'd sset_lsa" where
  "sset_insert s e =
     (case insert_ordered s e of
        (ok, s1) \<Rightarrow>
          if ok then
            (case dict s1 (key_at s1 e) of
               None \<Rightarrow> (True, s1\<lparr>dict := (dict s1)(key_at s1 e \<mapsto> e)\<rparr>)
             | Some _ \<Rightarrow> (False, s1))
          else (False, s1))"

text \<open>
  The bulk operations take a \<open>std::unordered_map<bytes, double>\<close>. Its iteration order
  is not specified, so the model takes the members as the list of pairs in the order the
  loop visits them; the keys of a map are pairwise distinct.
\<close>

fun insert_if_not_exists_loop :: "('d::ord) sset_lsa \<Rightarrow> nat \<Rightarrow> (bytes \<times> 'd) list \<Rightarrow> nat \<times> 'd sset_lsa" where
  "insert_if_not_exists_loop s inserted [] = (inserted, s)"
| "insert_if_not_exists_loop s inserted ((k, sc) # members) =
     (case dict s k of
        None \<Rightarrow>
          (case allocator_construct s k sc of
             (entry, s1) \<Rightarrow>
               (case sset_insert s1 entry of
                  (ok, s2) \<Rightarrow>
                    if ok then insert_if_not_exists_loop s2 (inserted + 1) members
                    else insert_if_not_exists_loop (allocator_destroy s2 entry) inserted members))
      | Some _ \<Rightarrow> insert_if_not_exists_loop s inserted members)"

definition insert_if_not_exists :: "('d::ord) sset_lsa \<Rightarrow> (bytes \<times> 'd) list \<Rightarrow> nat \<times> 'd sset_lsa" where
  "insert_if_not_exists s members = insert_if_not_exists_loop s 0 members"

fun update_if_only_exists_loop :: "('d::ord) sset_lsa \<Rightarrow> nat \<Rightarrow> (bytes \<times> 'd) list \<Rightarrow> nat \<times> 'd sset_lsa" where
  "update_if_only_exists_loop s inserted [] = (inserted, s)"
| "update_if_only_exists_loop s inserted ((k, sc) # members) =
     (case dict s k of
        Some it \<Rightarrow>
          (case insert_ordered (entry_update_score (list_erase s it) it sc) it of
             (ok, s1) \<Rightarrow>
               if ok then update_if_only_exists_loop s1 (inserted + 1) members
               else update_if_only_exists_loop s1 inserted members)
      | None \<Rightarrow> update_if_only_exists_loop s inserted members)"

definition update_if_only_exists :: "('d::ord) sset_lsa \<Rightarrow> (bytes \<times> 'd) list \<Rightarrow> nat \<times> 'd sset_lsa" where
  "update_if_only_exists s members = update_if_only_exists_loop s 0 members"

text \<open>\<open>insert_or_update(bytes& key, double delta)\<close> (lines 205-219): the increment.\<close>

definition insert_or_update :: "('d::{ord, plus}) sset_lsa \<Rightarrow> bytes \<Rightarrow> 'd \<Rightarrow> 'd \<times> 'd sset_lsa" where
  "insert_or_update s k delta =
     (case dict s k of
        Some it \<Rightarrow>
          (let result = delta + score_at s it
           in (result, snd (update (entry_update_score s it result) it)))
      | None \<Rightarrow>
          (case allocator_construct s k delta of
             (entry, s1) \<Rightarrow> (delta, snd (sset_insert s1 entry))))"

text \<open>\<open>insert_or_update(std::unordered_map<bytes, double>&)\<close> (lines 221-242).\<close>

fun insert_or_update_loop :: "('d::ord) sset_lsa \<Rightarrow> nat \<Rightarrow> (bytes \<times> 'd) list \<Rightarrow> nat \<times> 'd sset_lsa" where
  "insert_or_update_loop s inserted [] = (inserted, s)"
| "insert_or_update_loop s inserted ((k, sc) # members) =
     (case dict s k of
        Some it \<Rightarrow>
          (case update (entry_update_score s it sc) it of
             (ok, s1) \<Rightarrow>
               if ok then insert_or_update_loop s1 (inserted + 1) members
               else insert_or_update_loop s1 inserted members)
      | None \<Rightarrow>
          (case allocator_construct s k sc of
             (entry, s1) \<Rightarrow>
               (case sset_insert s1 entry of
                  (ok, s2) \<Rightarrow>
                    if ok then insert_or_update_loop s2 (inserted + 1) members
                    else insert_or_update_loop s2 inserted members)))"

definition insert_or_update_members :: "('d::ord) sset_lsa \<Rightarrow> (bytes \<times> 'd) list \<Rightarrow> nat \<times> 'd sset_lsa" where
  "insert_or_update_members s members = insert_or_update_loop s 0 members"

text \<open>\<open>erase(std::vector<const sset_entry*>&)\<close> (lines 362-371).\<close>

fun erase_entries_loop :: "'d sset_lsa \<Rightarrow> addr list \<Rightarrow> 'd sset_lsa" where
  "erase_entries_loop s [] = s"
| "erase_entries_loop s (e # entries) =
     erase_entries_loop (allocator_destroy (list_erase (dict_erase s e) e) e) entries"

definition erase_entries :: "'d sset_lsa \<Rightarrow> addr list \<Rightarrow> nat \<times> 'd sset_lsa" where
  "erase_entries s entries = (length entries, erase_entries_loop s entries)"

text \<open>\<open>erase(std::vector<bytes>&)\<close> (lines 373-387).\<close>

fun erase_keys_loop :: "'d sset_lsa \<Rightarrow> nat \<Rightarrow> bytes list \<Rightarrow> nat \<times> 'd sset_lsa" where
  "erase_keys_loop s removed [] = (removed, s)"
| "erase_keys_loop s removed (k # keys) =
     (case dict s k of
        Some dit \<Rightarrow>
          erase_keys_loop (allocator_destroy (list_erase (s\<lparr>dict := (dict s)(k := None)\<rparr>) dit) dit)
            (removed + 1) keys
      | None \<Rightarrow> erase_keys_loop s removed keys)"

definition erase_keys :: "'d sset_lsa \<Rightarrow> bytes list \<Rightarrow> nat \<times> 'd sset_lsa" where
  "erase_keys s keys = erase_keys_loop s 0 keys"

text \<open>\<open>score(const bytes& key)\<close> (lines 467-474) and \<open>size()\<close> (lines 437-440).\<close>

definition sset_score :: "'d sset_lsa \<Rightarrow> bytes \<Rightarrow> 'd option" where
  "sset_score s k = (case dict s k of Some it \<Rightarrow> Some (score_at s it) | None \<Rightarrow> None)"

definition sset_size :: "'d sset_lsa \<Rightarrow> nat" where
  "sset_size s = length (lst s)"

text \<open>
  The interface "insert(key, score)" as a caller of \<open>sset_lsa::insert\<close> performs it: the
  entry is constructed first and then handed to \<open>insert\<close>.
\<close>

definition insert_new :: "('d::ord) sset_lsa \<Rightarrow> bytes \<Rightarrow> 'd \<Rightarrow> bool \<times> 'd sset_lsa" where
  "insert_new s k sc = (case allocator_construct s k sc of (e, s1) \<Rightarrow> sset_insert s1 e)"

text \<open>
  \<open>fetch_by_rank\<close> (lines 244-275). \<open>long\<close> is modelled by \<open>int\<close>: the only arithmetic is
  the addition of the list size to a negative index. \<open>end_loop\<close> is the loop
  \<open>while (end < 0) { end += size; }\<close>; the source reaches it with a non-empty list only,
  which is the guard \<open>0 < sz\<close> that makes the model total.
\<close>

function end_loop :: "int \<Rightarrow> int \<Rightarrow> int" where
  "end_loop nd sz = (if nd < 0 \<and> 0 < sz then end_loop (nd + sz) sz else nd)"
  by pat_completeness auto
termination
  by (relation "measure (\<lambda>(nd, sz). nat (- nd))") auto

definition rank_out_of_range :: "'d sset_lsa \<Rightarrow> int \<Rightarrow> int \<Rightarrow> bool" where
  "rank_out_of_range s bgn nd \<longleftrightarrow> bgn > int (length (lst s)) \<or> nd \<le> 0"

fun fetch_loop :: "'d sset_lsa \<Rightarrow> int \<Rightarrow> int \<Rightarrow> int \<Rightarrow> addr list \<Rightarrow> (bytes \<times> 'd) list \<Rightarrow> (bytes \<times> 'd) list" where
  "fetch_loop s bgn nd rank [] entries = entries"
| "fetch_loop s bgn nd rank (it # rest) entries =
     (if rank < bgn then fetch_loop s bgn nd (rank + 1) rest entries
      else if rank > nd then entries
      else fetch_loop s bgn nd (rank + 1) rest (entries @ [(key_at s it, score_at s it)]))"

definition fetch_by_rank :: "'d sset_lsa \<Rightarrow> int \<Rightarrow> int \<Rightarrow> (bytes \<times> 'd) list \<Rightarrow> (bytes \<times> 'd) list" where
  "fetch_by_rank s bgn nd entries =
     (if lst s = [] then entries
      else
        let sz = int (length (lst s));
            bgn1 = (if bgn < 0 then bgn + sz else bgn);
            nd1 = end_loop nd sz;
            bgn2 = (if bgn1 < 0 then 0 else bgn1)
        in if bgn2 > nd1 then entries
           else
             let bgn3 = (if bgn2 > sz then sz else bgn2)
             in if rank_out_of_range s bgn3 nd1 then entries
                else fetch_loop s bgn3 nd1 0 (lst s) entries)"

text \<open>
  The invariant of the two containers: the list links every entry once, the dictionary
  links exactly the entries of the list, each under its own key, and the scores along the
  list do not decrease.
\<close>

definition sset_invariant :: "('d::linorder) sset_lsa \<Rightarrow> bool" where
  "sset_invariant s \<longleftrightarrow>
     distinct (lst s) \<and>
     ran (dict s) = set (lst s) \<and>
     (\<forall>k a. dict s k = Some a \<longrightarrow> key_at s a = k) \<and>
     sorted (map (score_at s) (lst s))"

text \<open>One iteration of the loop of \<open>erase(std::vector<const sset_entry*>&)\<close>.\<close>

definition erase_step :: "'d sset_lsa \<Rightarrow> addr \<Rightarrow> 'd sset_lsa" where
  "erase_step s e = allocator_destroy (list_erase (dict_erase s e) e) e"

text \<open>The example state: members a, b, c with scores 1, 2, 3, added in this order.\<close>

definition sset_123 :: "real sset_lsa" where
  "sset_123 = snd (insert_if_not_exists sset_new [(''a'', 1), (''b'', 2), (''c'', 3)])"

text \<open>
  The invariant together with the fact the allocator relies on: every linked entry was
  handed out before, so the next address is fresh.
\<close>

definition sset_ok :: "('d::linorder) sset_lsa \<Rightarrow> bool" where
  "sset_ok s \<longleftrightarrow> sset_invariant s \<and> (\<forall>a \<in> set (lst s). a < next_addr s)"

text \<open>
  The pair \<open>(key, score)\<close> that \<open>fetch_by_rank\<close> emits for an entry.
\<close>

definition entry_pair :: "'d sset_lsa \<Rightarrow> addr \<Rightarrow> bytes \<times> 'd" where
  "entry_pair s it = (key_at s it, score_at s it)"

section \<open>Block cursor (src/store/table/table.cc, class block_reader)\<close>

text \<open>
  A block is a byte buffer: the entries, then one 32-bit little-endian offset per restart
  point, then the 32-bit number of restart points. Bytes are characters, a buffer is a
  list of them, and a position in the buffer (a \<open>const char*\<close> of the source) is the index
  from the start of the buffer.
\<close>

text \<open>
  \<open>bytes_view { key_ptr, non_shared }\<close>: the bytes of a view.
\<close>

definition sub_bytes :: "bytes \<Rightarrow> nat \<Rightarrow> nat \<Rightarrow> bytes" where
  "sub_bytes data off len = take len (drop off data)"

text \<open>
  Modelled from the spec: \<open>decode_fixed32\<close> is declared in store/util/coding.hh, which is
  not among the sources. It reads a 32-bit little-endian integer. A read that leaves the
  buffer is undefined behaviour in the source and \<open>None\<close> here.
\<close>

definition fixed32_at :: "bytes \<Rightarrow> nat \<Rightarrow> nat" where
  "fixed32_at data off =
     of_char (data ! off) + of_char (data ! (off + 1)) * 2 ^ 8 +
     of_char (data ! (off + 2)) * 2 ^ 16 + of_char (data ! (off + 3)) * 2 ^ 24"

definition decode_fixed32 :: "bytes \<Rightarrow> nat \<Rightarrow> nat option" where
  "decode_fixed32 data off = (if off + 4 \<le> length data then Some (fixed32_at data off) else None)"

text \<open>
  Modelled from the spec: \<open>decode_entry\<close> is declared outside the sources. An entry starts
  with the three varint32 fields \<open>shared\<close>, \<open>non_shared\<close> and \<open>value_length\<close>, followed
  by \<open>non_shared\<close> key bytes and \<open>value_length\<close> value bytes. A varint32 holds seven bits
  per byte, least significant group first, in at most five bytes; the top bit of a byte
  says that another byte follows. \<open>decode_entry\<close> returns the position of the key bytes,
  or \<open>nullptr\<close> (\<open>None\<close>) when a field is truncated or the key and value bytes do not fit
  before \<open>limit\<close>.
\<close>

fun varint32_loop :: "nat \<Rightarrow> bytes \<Rightarrow> nat \<Rightarrow> nat \<Rightarrow> nat \<Rightarrow> nat \<Rightarrow> (nat \<times> nat) option" where
  "varint32_loop 0 data p limit shift result = None"
| "varint32_loop (Suc k) data p limit shift result =
     (if p < limit \<and> p < length data then
        (let byte = (of_char (data ! p) :: nat) in
         if 128 \<le> byte
         then varint32_loop k data (p + 1) limit (shift + 7) (result + (byte - 128) * 2 ^ shift)
         else Some ((result + byte * 2 ^ shift) mod 2 ^ 32, p + 1))
      else None)"

definition get_varint32 :: "bytes \<Rightarrow> nat \<Rightarrow> nat \<Rightarrow> (nat \<times> nat) option" where
  "get_varint32 data p limit = varint32_loop 5 data p limit 0 0"

definition decode_entry :: "bytes \<Rightarrow> nat \<Rightarrow> nat \<Rightarrow> (nat \<times> nat \<times> nat \<times> nat) option" where
  "decode_entry data p limit =
     (case get_varint32 data p limit of
        None \<Rightarrow> None
      | Some (shared, p1) \<Rightarrow>
          (case get_varint32 data p1 limit of
             None \<Rightarrow> None
           | Some (non_shared, p2) \<Rightarrow>
               (case get_varint32 data p2 limit of
                  None \<Rightarrow> None
                | Some (value_length, p3) \<Rightarrow>
                    if limit - p3 < non_shared + value_length then None
                    else Some (shared, non_shared, value_length, p3))))"

text \<open>
  Modelled from the spec: \<open>compare\<close> is the injected bytewise comparator, a three-way
  comparison of byte strings in the lexicographic order of their bytes.
\<close>

definition compare :: "bytes \<Rightarrow> bytes \<Rightarrow> int" where
  "compare a b = (if a < b then - 1 else if a = b then 0 else 1)"

text \<open>
  The members of \<open>block_reader\<close>. The source writes the offset of the restart array as
  \<open>_restarts_offset\<close>, \<open>restarts_offset\<close> and \<open>restarts_\<close>, the buffer as \<open>_data_view\<close> and
  \<open>data_\<close>; each is one field here. \<open>current_key\<close> is \<open>_current.key()\<close>, \<open>value_view\<close> holds
  the position and the size of \<open>_value_view\<close>, \<open>block_eof\<close> is \<open>_eof\<close>. The 32-bit members
  are natural numbers, with the wrap-around of \<open>uint32_t\<close> written out where the source
  computes.
\<close>

record block_reader =
  data_view :: bytes
  restarts_offset :: nat
  num_restarts :: nat
  restart_index :: nat
  current_offset :: nat
  current_key :: bytes
  value_view :: "nat \<times> nat"
  block_eof :: bool

text \<open>
  The constructor (lines 146-157) takes the buffer and the number of restart points from
  the block and initialises \<open>_restarts_offset\<close> with 0; no member function assigns it
  afterwards.
\<close>

definition make_block_reader :: "bytes \<Rightarrow> nat \<Rightarrow> block_reader" where
  "make_block_reader data n =
     \<lparr>data_view = data, restarts_offset = 0, num_restarts = n, restart_index = 0,
      current_offset = 0, current_key = [], value_view = (0, 0), block_eof = False\<rparr>"

text \<open>
\<open>eof()\<close> (lines 209-211) and \<open>next_entry_offset()\<close> (lines 213-215).
\<close>

definition block_reader_eof :: "block_reader \<Rightarrow> bool" where
  "block_reader_eof r \<longleftrightarrow> restarts_offset r \<le> current_offset r \<or> block_eof r"

definition next_entry_offset :: "block_reader \<Rightarrow> nat" where
  "next_entry_offset r = (fst (value_view r) + snd (value_view r)) mod 2 ^ 32"

text \<open>
  \<open>get_restart_point\<close> (lines 217-220): \<open>None\<close> stands for the failed assertion and for a
  read outside the buffer. \<open>seek_to_restart_point\<close> (lines 222-227).
\<close>

definition get_restart_point :: "block_reader \<Rightarrow> nat \<Rightarrow> nat option" where
  "get_restart_point r index =
     (if index < num_restarts r then decode_fixed32 (data_view r) (restarts_offset r + index * 4)
      else None)"

definition seek_to_restart_point :: "block_reader \<Rightarrow> nat \<Rightarrow> block_reader option" where
  "seek_to_restart_point r index =
     (case get_restart_point r index of
        None \<Rightarrow> None
      | Some offset \<Rightarrow> Some (r\<lparr>current_key := [], restart_index := index, value_view := (offset, 0)\<rparr>))"

text \<open>
  \<open>parse_next_key\<close> (lines 229-252); \<open>restart_index_loop\<close> is its \<open>while\<close> loop that
  advances \<open>restart_index_\<close>.
\<close>

function restart_index_loop :: "block_reader \<Rightarrow> block_reader option" where
  "restart_index_loop r =
     (if restart_index r + 1 < num_restarts r then
        (case get_restart_point r (restart_index r + 1) of
           None \<Rightarrow> None
         | Some offset \<Rightarrow>
             if offset < current_offset r
             then restart_index_loop (r\<lparr>restart_index := restart_index r + 1\<rparr>)
             else Some r)
      else Some r)"
  by pat_completeness auto
termination
  by (relation "measure (\<lambda>r. num_restarts r - restart_index r)") auto

definition parse_next_key :: "block_reader \<Rightarrow> (bool \<times> block_reader) option" where
  "parse_next_key r =
     (let r1 = r\<lparr>current_offset := next_entry_offset r\<rparr>;
          p = current_offset r1;
          limit = restarts_offset r1
      in if limit \<le> p
         then Some (False, r1\<lparr>current_offset := restarts_offset r1, restart_index := num_restarts r1\<rparr>)
         else
           (case decode_entry (data_view r1) p limit of
              None \<Rightarrow> Some (False, r1)
            | Some (shared, non_shared, value_length, key_ptr) \<Rightarrow>
                if length (current_key r1) < shared then Some (False, r1)
                else
                  (case restart_index_loop
                          (r1\<lparr>current_key := take shared (current_key r1) @
                                               sub_bytes (data_view r1) key_ptr non_shared,
                              value_view := (key_ptr + non_shared, value_length)\<rparr>) of
                     None \<Rightarrow> None
                   | Some r2 \<Rightarrow> Some (True, r2))))"

text \<open>
  \<open>seek\<close> (lines 170-200). \<open>restart_search\<close> is the binary search: it returns the restart
  index \<open>left\<close> it ends with, or \<open>Inl ()\<close> when an entry at a restart point does not decode
  or has \<open>shared \<noteq> 0\<close>, where the source sets \<open>_eof\<close> and returns. \<open>mid\<close> and \<open>mid - 1\<close>
  are computed in \<open>uint32_t\<close>. \<open>seek_scan\<close> is the linear search \<open>while (true)\<close>. Both
  loops are partial functions: \<open>None\<close> is a run that does not return (or that reads
  outside the buffer).
\<close>

partial_function (option) restart_search :: "block_reader \<Rightarrow> bytes \<Rightarrow> nat \<Rightarrow> nat \<Rightarrow> (unit + nat) option" where
  "restart_search r target left right =
     (if left < right then
        (let mid = ((left + right + 1) mod 2 ^ 32) div 2 in
         case get_restart_point r mid of
           None \<Rightarrow> None
         | Some region_offset \<Rightarrow>
             (case decode_entry (data_view r) region_offset (restarts_offset r) of
                None \<Rightarrow> Some (Inl ())
              | Some (shared, non_shared, value_length, key_ptr) \<Rightarrow>
                  if shared \<noteq> 0 then Some (Inl ())
                  else if compare (sub_bytes (data_view r) key_ptr non_shared) target < 0
                  then restart_search r target mid right
                  else restart_search r target left ((mid + 2 ^ 32 - 1) mod 2 ^ 32)))
      else Some (Inr left))"

partial_function (option) seek_scan :: "block_reader \<Rightarrow> bytes \<Rightarrow> block_reader option" where
  "seek_scan r target =
     (case parse_next_key r of
        None \<Rightarrow> None
      | Some (ok, r1) \<Rightarrow>
          if \<not> ok then Some r1
          else if 0 \<le> compare (current_key r1) target then Some r1
          else seek_scan r1 target)"

declare restart_search.simps [code]
declare seek_scan.simps [code]

definition block_seek :: "block_reader \<Rightarrow> bytes \<Rightarrow> block_reader option" where
  "block_seek r target =
     (case restart_search r target 0 ((num_restarts r + 2 ^ 32 - 1) mod 2 ^ 32) of
        None \<Rightarrow> None
      | Some (Inl _) \<Rightarrow> Some (r\<lparr>block_eof := True\<rparr>)
      | Some (Inr left) \<Rightarrow>
          (case seek_to_restart_point r left of
             None \<Rightarrow> None
           | Some r1 \<Rightarrow> seek_scan r1 target))"

subsection \<open>The entries of a block\<close>

text \<open>
  The entries of a block, decoded from position \<open>off\<close> up to \<open>limit\<close> with \<open>prev\<close> the key
  of the entry before: the offset of each entry, its \<open>shared\<close> field, its reconstructed
  key (the first \<open>shared\<close> bytes of the previous key and the \<open>non_shared\<close> bytes stored)
  and the position and size of its value. \<open>None\<close> when the bytes are not a sequence of
  entries that ends exactly at \<open>limit\<close>.
\<close>

record block_entry =
  e_offset :: nat
  e_shared :: nat
  e_key :: bytes
  e_value :: "nat \<times> nat"

function entries_from :: "bytes \<Rightarrow> nat \<Rightarrow> nat \<Rightarrow> bytes \<Rightarrow> block_entry list option" where
  "entries_from data limit off prev =
     (if limit \<le> off then (if off = limit then Some [] else None)
      else
        (case decode_entry data off limit of
           None \<Rightarrow> None
         | Some (shared, non_shared, value_length, key_ptr) \<Rightarrow>
             if length prev < shared \<or> key_ptr + non_shared + value_length \<le> off then None
             else
               (case entries_from data limit (key_ptr + non_shared + value_length)
                       (take shared prev @ sub_bytes data key_ptr non_shared) of
                  None \<Rightarrow> None
                | Some es \<Rightarrow>
                    Some (\<lparr>e_offset = off, e_shared = shared,
                           e_key = take shared prev @ sub_bytes data key_ptr non_shared,
                           e_value = (key_ptr + non_shared, value_length)\<rparr> # es))))"
  by pat_completeness auto
termination
  by (relation "measure (\<lambda>(data, limit, off, prev). limit - off)") auto

declare entries_from.simps [simp del]

text \<open>
  Two blocks. \<open>block_a\<close> holds the single entry a with the value 1 and the restart point
  0; its restart array starts at offset 5. \<open>block_abb\<close> holds the entries a, ab (stored
  with one shared byte) and b with the values 1, 2, 3 and the restart points 0 and 10; its
  restart array starts at offset 15.
\<close>

definition block_a :: bytes where
  "block_a =
     [CHR 0x00, CHR 0x01, CHR 0x01, CHR ''a'', CHR ''1'',
      CHR 0x00, CHR 0x00, CHR 0x00, CHR 0x00,
      CHR 0x01, CHR 0x00, CHR 0x00, CHR 0x00]"

definition block_abb :: bytes where
  "block_abb =
     [CHR 0x00, CHR 0x01, CHR 0x01, CHR ''a'', CHR ''1'',
      CHR 0x01, CHR 0x01, CHR 0x01, CHR ''b'', CHR ''2'',
      CHR 0x00, CHR 0x01, CHR 0x01, CHR ''b'', CHR ''3'',
      CHR 0x00, CHR 0x00, CHR 0x00, CHR 0x00,
      CHR 0x0A, CHR 0x00, CHR 0x00, CHR 0x00,
      CHR 0x02, CHR 0x00, CHR 0x00, CHR 0x00]"

section \<open>Merge over table cursors (src/store/table/table.cc, class combined_sstables_reader)\<close>

text \<open>
  Modelled from the spec: the sub-cursors. \<open>combined_sstables_reader\<close> calls
  \<open>seek_to_first\<close>, \<open>seek_to_last\<close>, \<open>seek\<close>, \<open>next\<close>, \<open>eof\<close> and \<open>current\<close> on the elements of
  \<open>_sstables\<close>. The cursor over one table that the source sketches (\<open>sstable_reader\<close>) rests on
  the block cache, the file reader and the type \<open>partition\<close>, none of which is among the
  sources, so a sub-cursor is modelled by its contract: the entries of its table in key
  order and a position; it is exhausted when the position is past the last entry.
  \<open>past_end\<close> is what \<open>current()\<close> reports on an exhausted cursor; the contract leaves it
  open. \<open>make_sstable_reader\<close> sets it as \<open>block_reader::parse_next_key\<close> leaves \<open>_current\<close> at
  the end of a block: the last entry read, or the empty key for a table without entries.
\<close>

record table_cursor =
  cursor_entries :: "(bytes \<times> bytes) list"
  cursor_pos :: nat
  past_end :: "bytes \<times> bytes"

definition make_sstable_reader :: "(bytes \<times> bytes) list \<Rightarrow> table_cursor" where
  "make_sstable_reader es =
     \<lparr>cursor_entries = es, cursor_pos = 0, past_end = (if es = [] then ([], []) else last es)\<rparr>"

definition cursor_seek_to_first :: "table_cursor \<Rightarrow> table_cursor" where
  "cursor_seek_to_first c = c\<lparr>cursor_pos := 0\<rparr>"

definition cursor_seek_to_last :: "table_cursor \<Rightarrow> table_cursor" where
  "cursor_seek_to_last c = c\<lparr>cursor_pos := length (cursor_entries c) - 1\<rparr>"

definition cursor_seek :: "bytes \<Rightarrow> table_cursor \<Rightarrow> table_cursor" where
  "cursor_seek k c = c\<lparr>cursor_pos := length (takeWhile (\<lambda>e. fst e < k) (cursor_entries c))\<rparr>"

definition cursor_next :: "table_cursor \<Rightarrow> table_cursor" where
  "cursor_next c = c\<lparr>cursor_pos := cursor_pos c + 1\<rparr>"

definition cursor_eof :: "table_cursor \<Rightarrow> bool" where
  "cursor_eof c \<longleftrightarrow> length (cursor_entries c) \<le> cursor_pos c"

definition cursor_current :: "table_cursor \<Rightarrow> bytes \<times> bytes" where
  "cursor_current c =
     (if cursor_pos c < length (cursor_entries c) then cursor_entries c ! cursor_pos c
      else past_end c)"

text \<open>
  The members of \<open>combined_sstables_reader\<close>. The member functions work on \<open>_sstables\<close>,
  whose elements they use as cursors. \<open>_current\<close> points to one of them: \<open>current_ptr\<close> is
  the index of that element, \<open>None\<close> the null pointer. \<open>eof_flag\<close> is \<open>_eof\<close>.
\<close>

record combined_sstables_reader =
  sstables :: "table_cursor list"
  current_ptr :: "nat option"
  eof_flag :: bool

definition make_combined_sstables_reader :: "table_cursor list \<Rightarrow> combined_sstables_reader" where
  "make_combined_sstables_reader cs = \<lparr>sstables = cs, current_ptr = None, eof_flag = False\<rparr>"

text \<open>
  \<open>find_smallest_one\<close> (lines 428-443). \<open>_sstables[0]\<close> on an empty vector is undefined
  behaviour in the source and \<open>None\<close> here.
\<close>

definition less_comparator :: "table_cursor \<Rightarrow> table_cursor \<Rightarrow> bool" where
  "less_comparator a b \<longleftrightarrow> fst (cursor_current a) < fst (cursor_current b)"

definition find_smallest_one :: "combined_sstables_reader \<Rightarrow> combined_sstables_reader option" where
  "find_smallest_one r =
     (if sstables r = [] then None
      else
        let smallest = foldl (\<lambda>smallest i.
                          if less_comparator (sstables r ! i) (sstables r ! smallest) then i else smallest)
                        0 [1 ..< length (sstables r)];
            r1 = r\<lparr>current_ptr := Some smallest\<rparr>
        in Some (if current_ptr r1 = None then r1\<lparr>eof_flag := True\<rparr> else r1))"

text \<open>
  \<open>seek_to_first\<close>, \<open>seek_to_last\<close>, \<open>seek\<close> (lines 379-401) and \<open>next\<close> (lines 403-411):
  every sub-cursor is positioned (for \<open>next\<close>: the one \<open>_current\<close> points to is advanced),
  then the smallest one is looked for.
\<close>

definition seek_to_first :: "combined_sstables_reader \<Rightarrow> combined_sstables_reader option" where
  "seek_to_first r = find_smallest_one (r\<lparr>sstables := map cursor_seek_to_first (sstables r)\<rparr>)"

definition seek_to_last :: "combined_sstables_reader \<Rightarrow> combined_sstables_reader option" where
  "seek_to_last r = find_smallest_one (r\<lparr>sstables := map cursor_seek_to_last (sstables r)\<rparr>)"

definition combined_seek :: "bytes \<Rightarrow> combined_sstables_reader \<Rightarrow> combined_sstables_reader option" where
  "combined_seek k r = find_smallest_one (r\<lparr>sstables := map (cursor_seek k) (sstables r)\<rparr>)"

definition combined_next :: "combined_sstables_reader \<Rightarrow> combined_sstables_reader option" where
  "combined_next r =
     find_smallest_one
       (r\<lparr>sstables := map (\<lambda>i. if Some i = current_ptr r then cursor_next (sstables r ! i)
                                  else sstables r ! i)
                          [0 ..< length (sstables r)]\<rparr>)"

text \<open>\<open>eof()\<close> (lines 413-422) and \<open>current()\<close> (lines 424-426).\<close>

definition combined_eof :: "combined_sstables_reader \<Rightarrow> bool" where
  "combined_eof r =
     (if eof_flag r then eof_flag r
      else foldl (\<lambda>all_eof sstable. all_eof \<and> cursor_eof sstable) False (sstables r))"

definition combined_current :: "combined_sstables_reader \<Rightarrow> (bytes \<times> bytes) option" where
  "combined_current r =
     (case current_ptr r of None \<Rightarrow> None | Some i \<Rightarrow> Some (cursor_current (sstables r ! i)))"

text \<open>
  A sequence of positioning and \<open>next\<close> calls, and the iteration
  "while not eof: current; next" with a bound on the number of rounds: the result holds the
  keys yielded and tells whether the loop ended because \<open>eof()\<close> was true.
\<close>

datatype cursor_call = Seek_to_first | Seek_to_last | Seek bytes | Next

fun call :: "cursor_call \<Rightarrow> combined_sstables_reader \<Rightarrow> combined_sstables_reader option" where
  "call Seek_to_first r = seek_to_first r"
| "call Seek_to_last r = seek_to_last r"
| "call (Seek k) r = combined_seek k r"
| "call Next r = combined_next r"

fun calls :: "cursor_call list \<Rightarrow> combined_sstables_reader \<Rightarrow> combined_sstables_reader option" where
  "calls [] r = Some r"
| "calls (c # cs) r = (case call c r of None \<Rightarrow> None | Some r' \<Rightarrow> calls cs r')"

fun iterate :: "nat \<Rightarrow> combined_sstables_reader \<Rightarrow> bytes list \<Rightarrow> (bytes list \<times> bool) option" where
  "iterate 0 r yielded = Some (yielded, False)"
| "iterate (Suc fuel) r yielded =
     (if combined_eof r then Some (yielded, True)
      else case combined_current r of
             None \<Rightarrow> None
           | Some e \<Rightarrow>
               (case combined_next r of
                  None \<Rightarrow> None
                | Some r' \<Rightarrow> iterate fuel r' (yielded @ [fst e])))"

text \<open>The tables of the examples, and the states the examples reach.\<close>

definition T1 :: table_cursor where
  "T1 = make_sstable_reader [(''a'', ''1''), (''c'', ''3''), (''e'', ''5'')]"

definition T2 :: table_cursor where
  "T2 = make_sstable_reader [(''b'', ''2''), (''d'', ''4''), (''f'', ''6'')]"

definition reader_T1_T2 :: combined_sstables_reader where
  "reader_T1_T2 = \<lparr>sstables = [T1, T2], current_ptr = Some 0, eof_flag = False\<rparr>"

definition reader_a_done :: combined_sstables_reader where
  "reader_a_done =
     \<lparr>sstables = [\<lparr>cursor_entries = [(''a'', ''1'')], cursor_pos = 1, past_end = (''a'', ''1'')\<rparr>],
      current_ptr = Some 0, eof_flag = False\<rparr>"

definition reader_empty :: combined_sstables_reader where
  "reader_empty =
     \<lparr>sstables = [\<lparr>cursor_entries = [], cursor_pos = 0, past_end = ([], [])\<rparr>],
      current_ptr = Some 0, eof_flag = False\<rparr>"

section \<open>Opening a table (src/store/table/table.cc, open_sstable)\<close>

text \<open>
  A future is the value it resolves to: a result or an exception, together with the
  caches as they are when it resolves. The exceptions of the source are the
  \<open>io_exception\<close> thrown by \<open>read_block\<close>, the \<open>redis::io_exception\<close> thrown by the handler
  at the end of \<open>open_sstable\<close>, and the exceptional future
  \<open>make_exception_future<>(lw_shared_ptr<table>({}))\<close> of the failed checks
  (\<open>null_table_exception\<close>); \<open>file_exception\<close> is whatever the file primitives raise.
  \<open>corrupt_format\<close> is the error kind the specification names; no path of the source
  raises it.
\<close>

datatype exn = io_exception | redis_io_exception | null_table_exception | file_exception | corrupt_format

record block_handle =
  handle_offset :: nat
  handle_size :: nat

record footer =
  metaindex_handle :: block_handle
  index_handle :: block_handle

record sstable_options =
  filter_policy :: "bytes option"
  sstable_buffer_size :: nat

text \<open>\<open>sstable::rep\<close> (lines 23-50): the file, the metaindex handle, the index block, the options and the filter.\<close>

record ('f, 'b) sstable =
  file_reader :: 'f
  rep_metaindex_handle :: block_handle
  index_block :: 'b
  options :: sstable_options
  filter_data :: "bytes option"

text \<open>
  What \<open>open_sstable\<close> uses and the sources do not hold is a parameter: the file
  primitives \<open>open_file_dma\<close>, \<open>size\<close> and \<open>read_exactly\<close> (which may return fewer bytes
  than asked for), the constant \<open>footer::kEncodedLength\<close> and \<open>footer::decode_from\<close>, the
  lookup of the filter handle in the metaindex block, and the two caches with their
  operations. \<open>'f\<close> is the type of an open file, \<open>'b\<close> of a cached block, \<open>'tc\<close> and \<open>'bc\<close>
  of the states of the table cache and of the block cache.
\<close>

record ('f, 'b, 'tc, 'bc) env =
  open_file_dma :: "bytes \<Rightarrow> exn + 'f"
  file_size :: "'f \<Rightarrow> exn + nat"
  read_exactly :: "'f \<Rightarrow> nat \<Rightarrow> nat \<Rightarrow> exn + bytes"
  kEncodedLength :: nat
  footer_decode_from :: "bytes \<Rightarrow> footer option"
  find_filter_handle :: "bytes \<Rightarrow> bytes \<Rightarrow> block_handle option"
  table_cache_find :: "'tc \<Rightarrow> bytes \<Rightarrow> ('f, 'b) sstable option"
  table_cache_insert :: "'tc \<Rightarrow> ('f, 'b) sstable \<Rightarrow> 'tc"
  find_and_create :: "'bc \<Rightarrow> block_handle \<Rightarrow> bytes \<Rightarrow> 'b \<times> 'bc"

text \<open>\<open>read_block\<close> (lines 52-60): every failure of the read becomes \<open>io_exception\<close>.\<close>

definition read_block :: "('f, 'b, 'tc, 'bc) env \<Rightarrow> 'f \<Rightarrow> block_handle \<Rightarrow> exn + bytes" where
  "read_block env r index =
     (case read_exactly env r (handle_offset index) (handle_size index) of
        Inr buffer \<Rightarrow> Inr buffer
      | Inl e \<Rightarrow> Inl io_exception)"

text \<open>
  \<open>read_meta\<close> (lines 107-129): without a filter policy nothing is read; otherwise the
  metaindex block is read, the entry "filter." + name is looked up, and when its value is
  a block handle the filter block is read.
\<close>

definition read_meta ::
  "('f, 'b, 'tc, 'bc) env \<Rightarrow> 'f \<Rightarrow> sstable_options \<Rightarrow> block_handle \<Rightarrow> exn + bytes option" where
  "read_meta env reader opts metaindex =
     (case filter_policy opts of
        None \<Rightarrow> Inr None
      | Some name \<Rightarrow>
          (case read_block env reader metaindex of
             Inl e \<Rightarrow> Inl e
           | Inr meta \<Rightarrow>
               (case find_filter_handle env meta (''filter.'' @ name) of
                  Some filter_handle \<Rightarrow>
                    (case read_block env reader filter_handle of
                       Inl e \<Rightarrow> Inl e
                     | Inr data \<Rightarrow> Inr (Some data))
                | None \<Rightarrow> Inr None)))"

text \<open>
  \<open>open_sstable\<close> (lines 64-105). \<open>open_body\<close> is the chain that starts at \<open>file_.size()\<close>
  (lines 71-100), \<open>handle_exception\<close> the handler attached to it (lines 101-103), which
  throws \<open>redis::io_exception\<close> for every exception of the chain.
\<close>

definition open_body ::
  "('f, 'b, 'tc, 'bc) env \<Rightarrow> 'tc \<Rightarrow> 'bc \<Rightarrow> 'f \<Rightarrow> sstable_options \<Rightarrow>
     (exn + ('f, 'b) sstable) \<times> 'tc \<times> 'bc" where
  "open_body env tcache bcache file opts =
     (case file_size env file of
        Inl e \<Rightarrow> (Inl e, tcache, bcache)
      | Inr sz \<Rightarrow>
          if sz < kEncodedLength env then (Inl null_table_exception, tcache, bcache)
          else
            (case read_exactly env file (sz - kEncodedLength env) (kEncodedLength env) of
               Inl e \<Rightarrow> (Inl e, tcache, bcache)
             | Inr buffer \<Rightarrow>
                 if length buffer \<noteq> kEncodedLength env then (Inl null_table_exception, tcache, bcache)
                 else
                   (case footer_decode_from env buffer of
                      None \<Rightarrow> (Inl null_table_exception, tcache, bcache)
                    | Some footer \<Rightarrow>
                        (case read_block env file (index_handle footer) of
                           Inl e \<Rightarrow> (Inl e, tcache, bcache)
                         | Inr data \<Rightarrow>
                             (case find_and_create env bcache (index_handle footer) data of
                                (iblock, bcache1) \<Rightarrow>
                                  (case read_meta env file opts (metaindex_handle footer) of
                                     Inl e \<Rightarrow> (Inl e, tcache, bcache1)
                                   | Inr filter_block \<Rightarrow>
                                       (let table_instance =
                                              \<lparr>file_reader = file,
                                               rep_metaindex_handle = metaindex_handle footer,
                                               index_block = iblock, options = opts,
                                               filter_data = filter_block\<rparr>
                                        in (Inr table_instance,
                                            table_cache_insert env tcache table_instance,
                                            bcache1))))))))"

definition handle_exception ::
  "(exn + 'a) \<times> 'tc \<times> 'bc \<Rightarrow> (exn + 'a) \<times> 'tc \<times> 'bc" where
  "handle_exception res =
     (case res of
        (Inl e, caches) \<Rightarrow> (Inl redis_io_exception, caches)
      | (Inr v, caches) \<Rightarrow> (Inr v, caches))"

definition open_sstable ::
  "('f, 'b, 'tc, 'bc) env \<Rightarrow> 'tc \<Rightarrow> 'bc \<Rightarrow> bytes \<Rightarrow> sstable_options \<Rightarrow>
     (exn + ('f, 'b) sstable) \<times> 'tc \<times> 'bc" where
  "open_sstable env tcache bcache fname opts =
     (case open_file_dma env fname of
        Inl e \<Rightarrow> (Inl e, tcache, bcache)
      | Inr file \<Rightarrow>
          (case table_cache_find env tcache fname of
             Some cached_table \<Rightarrow> (Inr cached_table, tcache, bcache)
           | None \<Rightarrow> handle_exception (open_body env tcache bcache file opts)))"

text \<open>
  The example: a file system with the single file short.sst of 47 zero bytes, a footer
  length of 48 bytes, and both caches empty lists. An open file is its name and its
  bytes. The example stops at the size check, so its footer decoder and its metaindex
  lookup are never asked; they answer \<open>None\<close>.
\<close>

definition example_options :: sstable_options where
  "example_options = \<lparr>filter_policy = None, sstable_buffer_size = 4096\<rparr>"

definition example_env ::
  "(bytes \<times> bytes, bytes, (bytes \<times> (bytes \<times> bytes, bytes) sstable) list,
    (block_handle \<times> bytes) list) env" where
  "example_env =
     \<lparr>open_file_dma = (\<lambda>fname. if fname = ''short.sst''
                                  then Inr (fname, replicate 47 (CHR 0x00))
                                  else Inl file_exception),
      file_size = (\<lambda>f. Inr (length (snd f))),
      read_exactly = (\<lambda>f off n. Inr (take n (drop off (snd f)))),
      kEncodedLength = 48,
      footer_decode_from = (\<lambda>buffer. None),
      find_filter_handle = (\<lambda>meta k. None),
      table_cache_find = (\<lambda>cache fname. map_of cache fname),
      table_cache_insert = (\<lambda>cache t. (fst (file_reader t), t) # cache),
      find_and_create = (\<lambda>cache h data. (data, (h, data) # cache))\<rparr>"

chapter \<open>Properties\<close>

section \<open>The arithmetic of \<open>double\<close>\<close>

text \<open>
  Rounding leaves a number of at most 53 significant bits as it is, so the result of a
  rounding is not changed by a second one: every sum of doubles is a double. The sum is
  commutative.
\<close>

lemma shift_count_small: "a < 2 ^ 53 \<Longrightarrow> shift_count a = 0"
  by (simp add: shift_count.simps)

lemma shift_count_step: "2 ^ 53 \<le> a \<Longrightarrow> shift_count a = Suc (shift_count (a div 2))"
  by (subst shift_count.simps) simp

lemma shift_count_le: "a div 2 ^ k < 2 ^ 53 \<Longrightarrow> shift_count a \<le> k"
proof (induction k arbitrary: a)
  case 0
  then show ?case by (simp add: shift_count_small)
next
  case (Suc k)
  show ?case
  proof (cases "a < 2 ^ 53")
    case True
    then show ?thesis by (simp add: shift_count_small)
  next
    case False
    have "(a div 2) div 2 ^ k = a div 2 ^ Suc k"
      by (simp add: zdiv_zmult2_eq)
    with Suc.prems have "shift_count (a div 2) \<le> k"
      using Suc.IH [of "a div 2"] by simp
    with False show ?thesis by (simp add: shift_count_step)
  qed
qed

lemma shift_count_bound: "a div 2 ^ shift_count a < 2 ^ 53"
proof (induction a rule: shift_count.induct)
  case (1 a)
  show ?case
  proof (cases "a < 2 ^ 53")
    case True
    then show ?thesis by (simp add: shift_count_small)
  next
    case False
    have "(a div 2) div 2 ^ shift_count (a div 2) = a div 2 ^ Suc (shift_count (a div 2))"
      by (simp add: zdiv_zmult2_eq)
    with 1 [OF False] False show ?thesis by (simp add: shift_count_step)
  qed
qed

lemma round_nearest_even_exact:
  assumes "q < 2 ^ 53"
  shows "round_nearest_even (q * 2 ^ k) = q * 2 ^ k"
proof -
  have "(q * 2 ^ k) div 2 ^ k < 2 ^ 53" using assms by simp
  then have le: "shift_count (q * 2 ^ k) \<le> k" by (rule shift_count_le)
  define j where "j = shift_count (q * 2 ^ k)"
  from le have "(2::int) ^ j dvd 2 ^ k" unfolding j_def by (simp add: le_imp_power_dvd)
  then have dvd: "2 ^ j dvd q * 2 ^ k" by simp
  then have r: "(q * 2 ^ k) mod 2 ^ j = 0" by simp
  from dvd have "(q * 2 ^ k) div 2 ^ j * 2 ^ j = q * 2 ^ k" by simp
  with r show ?thesis
    unfolding round_nearest_even_def Let_def j_def [symmetric] by simp
qed

lemma round_nearest_even_form:
  "\<exists>q k. q < 2 ^ 53 \<and> round_nearest_even a = q * 2 ^ k"
proof -
  define k where "k = shift_count a"
  define q where "q = a div 2 ^ k"
  have b: "q < 2 ^ 53" unfolding q_def k_def by (rule shift_count_bound)
  show ?thesis
  proof (cases "2 ^ k < 2 * (a mod 2 ^ k) \<or> (2 * (a mod 2 ^ k) = 2 ^ k \<and> odd q)")
    case False
    then have "round_nearest_even a = q * 2 ^ k"
      unfolding round_nearest_even_def Let_def k_def [symmetric] q_def [symmetric] by simp
    with b show ?thesis by blast
  next
    case True
    then have eq: "round_nearest_even a = (q + 1) * 2 ^ k"
      unfolding round_nearest_even_def Let_def k_def [symmetric] q_def [symmetric] by simp
    show ?thesis
    proof (cases "q + 1 < 2 ^ 53")
      case True
      with eq show ?thesis by blast
    next
      case False
      with b have "q + 1 = 2 ^ 53" by simp
      with eq have "round_nearest_even a = 2 ^ 52 * 2 ^ Suc k" by simp
      moreover have "(2::int) ^ 52 < 2 ^ 53" by simp
      ultimately show ?thesis by blast
    qed
  qed
qed

lemma round_nearest_even_idem:
  "round_nearest_even (round_nearest_even a) = round_nearest_even a"
proof -
  from round_nearest_even_form [of a] obtain q k
    where "q < 2 ^ 53" "round_nearest_even a = q * 2 ^ k" by blast
  then show ?thesis by (simp add: round_nearest_even_exact)
qed

lemma round_nearest_even_nonneg: "0 \<le> a \<Longrightarrow> 0 \<le> round_nearest_even a"
  unfolding round_nearest_even_def Let_def
  by (simp add: pos_imp_zdiv_nonneg_iff)

lemma round_nearest_even_pos:
  assumes "0 < a"
  shows "0 < round_nearest_even a"
proof -
  define k where "k = shift_count a"
  define q where "q = a div 2 ^ k"
  define r where "r = a mod 2 ^ k"
  have a: "a = q * 2 ^ k + r" unfolding q_def r_def by (rule div_mult_mod_eq [symmetric])
  have r: "0 \<le> r" "r < 2 ^ k" unfolding r_def by simp_all
  have q: "0 \<le> q" unfolding q_def using assms by (simp add: pos_imp_zdiv_nonneg_iff)
  have eq: "round_nearest_even a = (if 2 ^ k < 2 * r \<or> (2 * r = 2 ^ k \<and> odd q) then q + 1 else q) * 2 ^ k"
    unfolding round_nearest_even_def Let_def k_def [symmetric] q_def [symmetric] r_def [symmetric] ..
  show ?thesis
  proof (cases "q = 0")
    case False
    with q have "0 < q" by simp
    then show ?thesis unfolding eq by simp
  next
    case True
    with a have ar: "a = r" by simp
    have "k = 0 \<or> 2 ^ 53 \<le> a div 2 ^ (k - 1)"
    proof (cases "a < 2 ^ 53")
      case True
      then show ?thesis unfolding k_def by (simp add: shift_count_small)
    next
      case False
      have "\<not> a div 2 ^ (k - 1) < 2 ^ 53"
      proof
        assume "a div 2 ^ (k - 1) < 2 ^ 53"
        then have "shift_count a \<le> k - 1" by (rule shift_count_le)
        moreover from False have "0 < shift_count a" by (simp add: shift_count_step)
        ultimately show False unfolding k_def by simp
      qed
      then show ?thesis by simp
    qed
    then show ?thesis
    proof
      assume "k = 0"
      with r ar assms show ?thesis by simp
    next
      assume big: "2 ^ 53 \<le> a div 2 ^ (k - 1)"
      have k0: "k \<noteq> 0"
      proof
        assume "k = 0"
        with big True show False unfolding q_def by simp
      qed
      then obtain j where j: "k = Suc j" by (cases k) auto
      have "a div 2 ^ j * 2 ^ j + a mod 2 ^ j = a" by (rule div_mult_mod_eq)
      moreover have "0 \<le> a mod (2::int) ^ j" by simp
      ultimately have "a div 2 ^ j * 2 ^ j \<le> a" by linarith
      moreover from big j have "2 ^ 53 * 2 ^ j \<le> a div 2 ^ j * (2::int) ^ j"
        by (intro mult_right_mono) simp_all
      ultimately have "2 ^ 53 * 2 ^ j \<le> a" by linarith
      then have "2 ^ 53 * 2 ^ j \<le> r" using ar by simp
      moreover have "(2::int) ^ k \<le> 2 ^ 53 * 2 ^ j" using j by simp
      ultimately have "2 ^ k \<le> r" by linarith
      with r show ?thesis by simp
    qed
  qed
qed

lemma is_double_round: "is_double (round_to_double n)"
proof -
  have id: "round_nearest_even (round_nearest_even \<bar>n\<bar>) = round_nearest_even \<bar>n\<bar>"
    by (rule round_nearest_even_idem)
  have nn: "0 \<le> round_nearest_even \<bar>n\<bar>" by (simp add: round_nearest_even_nonneg)
  show ?thesis
  proof (cases "n < 0")
    case False
    with id nn show ?thesis
      by (simp add: is_double_def round_to_double_def Let_def)
  next
    case True
    then have "0 < round_nearest_even \<bar>n\<bar>" by (simp add: round_nearest_even_pos)
    with id nn True show ?thesis
      by (simp add: is_double_def round_to_double_def Let_def)
  qed
qed

lemma double_add_commute: "double_add a b = double_add b a"
  by (cases a; cases b) (simp_all add: add.commute)

lemma is_double_add: "is_double a \<Longrightarrow> is_double b \<Longrightarrow> is_double (a + b)"
  by (cases a; cases b) (simp_all add: plus_double_def is_double_round, simp_all add: is_double_def)

lemma round_to_double_exact:
  assumes "0 \<le> q" "q < 2 ^ 53" "k \<le> 2045"
  shows "round_to_double (q * 2 ^ k) = Fin (q * 2 ^ k)"
proof -
  have "q * 2 ^ k < 2 ^ 53 * 2 ^ k" using assms by simp
  also have "\<dots> = 2 ^ (53 + k)" by (simp add: power_add)
  also have "\<dots> \<le> 2 ^ 2098" using assms by (intro power_increasing) simp_all
  finally have "\<not> 2 ^ 2098 \<le> q * 2 ^ k" by simp
  moreover have "\<bar>q * 2 ^ k\<bar> = q * 2 ^ k" using assms by (simp add: abs_mult)
  moreover have "0 \<le> q * 2 ^ k" using assms by (intro mult_nonneg_nonneg) simp_all
  then have "\<not> q * 2 ^ k < 0" by simp
  ultimately show ?thesis
    using assms by (simp add: round_to_double_def Let_def round_nearest_even_exact)
qed

text \<open>
  Rounding at a tie: a number of 54 significant bits whose last bit is set lies half way
  between two doubles and goes to the one with the even significand. So \<open>2 ^ 53 + 1\<close> is
  not a double, and the sum of the doubles \<open>2 ^ 53\<close> and \<open>1\<close> is \<open>2 ^ 53\<close>.
\<close>

lemma shift_count_gt: "2 ^ 53 \<le> a div 2 ^ k \<Longrightarrow> k < shift_count a"
proof (induction k arbitrary: a)
  case 0
  then show ?case by (simp add: shift_count_step)
next
  case (Suc k)
  have e: "(a div 2) div 2 ^ k = a div 2 ^ Suc k"
    by (simp add: zdiv_zmult2_eq)
  have "\<not> a < 2 ^ 53"
  proof
    assume s: "a < 2 ^ 53"
    have "a div 2 ^ Suc k \<le> a div 1"
    proof (cases "0 \<le> a")
      case True
      have "(1::int) \<le> 2 ^ Suc k" by (rule one_le_power) simp
      with True show ?thesis by (intro zdiv_mono2) simp_all
    next
      case False
      then have "a div 2 ^ Suc k < 0" by (simp add: div_neg_pos_less0)
      with Suc.prems show ?thesis by simp
    qed
    with Suc.prems s show False by simp
  qed
  then have "shift_count a = Suc (shift_count (a div 2))" by (simp add: shift_count_step)
  moreover from Suc.prems e have "k < shift_count (a div 2)" by (intro Suc.IH) simp
  ultimately show ?case by simp
qed

lemma shift_count_eq:
  assumes "a div 2 ^ Suc k < 2 ^ 53" and "2 ^ 53 \<le> a div 2 ^ k"
  shows "shift_count a = Suc k"
  using shift_count_le [OF assms(1)] shift_count_gt [OF assms(2)] by simp

lemma round_nearest_even_tie:
  assumes "2 ^ 52 \<le> q" and "q < 2 ^ 53"
  shows "round_nearest_even ((2 * q + 1) * 2 ^ k) = (if odd q then q + 1 else q) * 2 ^ Suc k"
proof -
  define a where "a = (2 * q + 1) * (2::int) ^ k"
  have d1: "a div 2 ^ Suc k = q"
  proof -
    have "a div 2 ^ Suc k = ((2 * q + 1) * 2 ^ k) div (2 * 2 ^ k)" by (simp add: a_def)
    also have "\<dots> = (2 * q + 1) div 2" by (rule div_mult_mult2) simp
    also have "\<dots> = q" by simp
    finally show ?thesis .
  qed
  have m1: "a mod 2 ^ Suc k = 2 ^ k"
  proof -
    have "a mod 2 ^ Suc k = ((2 * q + 1) * 2 ^ k) mod (2 * 2 ^ k)" by (simp add: a_def)
    also have "\<dots> = ((2 * q + 1) mod 2) * 2 ^ k" by (rule mult_mod_left [symmetric])
    also have "\<dots> = 2 ^ k" by simp
    finally show ?thesis .
  qed
  have d0: "a div 2 ^ k = 2 * q + 1" by (simp add: a_def)
  have k: "shift_count a = Suc k"
    using assms by (intro shift_count_eq) (simp_all only: d1 d0, simp_all)
  show ?thesis
    unfolding a_def [symmetric] round_nearest_even_def Let_def k d1 m1 by simp
qed

lemma double_add_tie: "Fin (2 ^ 53 * 2 ^ 1074) + Fin (2 ^ 1074) = Fin (2 ^ 53 * 2 ^ 1074)"
proof -
  have s: "(2::int) ^ 53 * 2 ^ 1074 + 2 ^ 1074 = (2 * 2 ^ 52 + 1) * 2 ^ 1074"
    by (simp only: distrib_right mult_1 power_Suc [symmetric]) simp
  have r: "round_nearest_even ((2 * 2 ^ 52 + 1) * 2 ^ 1074) = 2 ^ 52 * 2 ^ Suc 1074"
    using round_nearest_even_tie [of "2 ^ 52" 1074] by simp
  have e: "(2::int) ^ 52 * 2 ^ Suc 1074 = 2 ^ 53 * 2 ^ 1074"
    by (simp only: power_Suc) simp
  have b: "(2::int) ^ 53 * 2 ^ 1074 < 2 ^ 2098"
  proof -
    have "(2::int) ^ 53 * 2 ^ 1074 = 2 ^ (53 + 1074)" by (rule power_add [symmetric])
    also have "\<dots> < 2 ^ 2098" by (rule power_strict_increasing) simp_all
    finally show ?thesis .
  qed
  have p: "(0::int) < (2 * 2 ^ 52 + 1) * 2 ^ 1074" by (intro mult_pos_pos) simp_all
  then have ab: "\<bar>(2 * 2 ^ 52 + 1) * 2 ^ 1074\<bar> = ((2 * 2 ^ 52 + 1) * 2 ^ 1074 :: int)"
    and n: "\<not> ((2 * 2 ^ 52 + 1) * 2 ^ 1074 :: int) < 0"
    by (simp_all only: abs_of_pos not_less less_imp_le)
  have "round_to_double ((2 * 2 ^ 52 + 1) * 2 ^ 1074) = Fin (2 ^ 53 * 2 ^ 1074)"
    unfolding round_to_double_def Let_def ab r e using b n by (simp only: not_le [symmetric] if_False)
  then show ?thesis
    unfolding plus_double_def double_add.simps s .
qed

lemma double_plus_commute:
  fixes a b :: double
  shows "a + b = b + a"
  by (simp add: plus_double_def double_add_commute)

section \<open>Sorted-set index\<close>

subsection \<open>Ordered insertion\<close>

lemma insert_scan_eq:
  "\<forall>y \<in> set pre. \<not> sc y > sc e \<Longrightarrow> (pre = [] \<longrightarrow> rest \<noteq> []) \<Longrightarrow> (pre \<noteq> [] \<longrightarrow> trace = last pre) \<Longrightarrow>
   insert_scan sc e pre trace rest =
     (True, pre @ takeWhile (\<lambda>y. \<not> sc y > sc e) rest @ e # dropWhile (\<lambda>y. \<not> sc y > sc e) rest)"
proof (induction rest arbitrary: pre trace)
  case Nil
  then have "pre \<noteq> []" and "trace = last pre" by auto
  then have "trace \<in> set pre" by simp
  with Nil.prems(1) have "\<not> sc trace > sc e" by blast
  then show ?case by simp
next
  case (Cons x rest)
  show ?case
  proof (cases "sc x > sc e")
    case True
    then show ?thesis by simp
  next
    case False
    have "insert_scan sc e (pre @ [x]) x rest =
      (True, (pre @ [x]) @ takeWhile (\<lambda>y. \<not> sc y > sc e) rest @ e # dropWhile (\<lambda>y. \<not> sc y > sc e) rest)"
      using Cons.prems(1) False by (intro Cons.IH) auto
    with False show ?thesis by simp
  qed
qed

lemma insert_ordered_lst:
  fixes s :: "('d::linorder) sset_lsa"
  shows "insert_ordered s e =
     (True, s\<lparr>lst := takeWhile (\<lambda>y. score_at s y \<le> score_at s e) (lst s) @
                     e # dropWhile (\<lambda>y. score_at s y \<le> score_at s e) (lst s)\<rparr>)"
proof (cases "lst s")
  case Nil
  then show ?thesis by (simp add: insert_ordered_def)
next
  case (Cons x xs)
  have le: "(\<lambda>y. \<not> score_at s y > score_at s e) = (\<lambda>y. score_at s y \<le> score_at s e)"
    by (auto simp: not_less)
  show ?thesis
  proof (cases "score_at s e < score_at s x")
    case True
    with Cons show ?thesis by (simp add: insert_ordered_def)
  next
    case False
    have "insert_scan (score_at s) e [] x (x # xs) =
      (True, [] @ takeWhile (\<lambda>y. \<not> score_at s y > score_at s e) (x # xs) @
                  e # dropWhile (\<lambda>y. \<not> score_at s y > score_at s e) (x # xs))"
      by (rule insert_scan_eq) auto
    with Cons False show ?thesis
      unfolding le by (simp add: insert_ordered_def)
  qed
qed

text \<open>
  Whatever the comparison of the scores answers, \<open>insert_ordered\<close> returns true and
  changes the list only.
\<close>

lemma insert_scan_ok: "fst (insert_scan sc e pre trace xs) = True"
  by (induction xs arbitrary: pre trace) simp_all

lemma insert_ordered_ok: "fst (insert_ordered s e) = True"
  by (cases "lst s") (simp_all add: insert_ordered_def insert_scan_ok split_beta)

lemma insert_ordered_frame:
  "\<exists>l. snd (insert_ordered s e) = s\<lparr>lst := l\<rparr>"
  by (cases "lst s") (auto simp: insert_ordered_def split: prod.splits)

lemma insert_ordered_dict [simp]: "dict (snd (insert_ordered s e)) = dict s"
  using insert_ordered_frame [of s e] by auto

lemma insert_ordered_mem [simp]: "mem (snd (insert_ordered s e)) = mem s"
  using insert_ordered_frame [of s e] by auto

lemma insert_ordered_live [simp]: "live (snd (insert_ordered s e)) = live s"
  using insert_ordered_frame [of s e] by auto

lemma insert_ordered_next_addr [simp]: "next_addr (snd (insert_ordered s e)) = next_addr s"
  using insert_ordered_frame [of s e] by auto

lemma sorted_dropWhile_gt:
  fixes f :: "'a \<Rightarrow> 'b::linorder"
  assumes "sorted (map f xs)"
  shows "\<forall>y \<in> set (dropWhile (\<lambda>y. f y \<le> c) xs). c < f y"
  using assms
proof (induction xs)
  case Nil
  then show ?case by simp
next
  case (Cons x xs)
  show ?case
  proof (cases "f x \<le> c")
    case True
    with Cons show ?thesis by simp
  next
    case False
    with Cons.prems show ?thesis by (auto simp: not_le)
  qed
qed

lemma sset_123_eq:
  "sset_123 =
     \<lparr>mem = (\<lambda>a. if a = 0 then \<lparr>entry_key = ''a'', entry_score = 1\<rparr>
                else if a = 1 then \<lparr>entry_key = ''b'', entry_score = 2\<rparr>
                else if a = 2 then \<lparr>entry_key = ''c'', entry_score = 3\<rparr>
                else \<lparr>entry_key = [], entry_score = 0\<rparr>),
      live = {0, 1, 2}, next_addr = 3,
      dict = [''a'' \<mapsto> 0, ''b'' \<mapsto> 1, ''c'' \<mapsto> 2],
      lst = [0, 1, 2]\<rparr>"
  by (auto simp: sset_123_def insert_if_not_exists_def sset_new_def allocator_construct_def sset_insert_def
      insert_ordered_lst score_at_def key_at_def fun_eq_iff numeral_eq_Suc)

lemma end_loop_nonneg: "0 \<le> nd \<Longrightarrow> end_loop nd sz = nd"
  by simp

lemma end_loop_neg: "0 < sz \<Longrightarrow> nd < 0 \<Longrightarrow> end_loop nd sz = nd mod sz"
proof (induction nd sz rule: end_loop.induct)
  case (1 nd sz)
  show ?case
  proof (cases "nd + sz < 0")
    case True
    with 1 have "end_loop (nd + sz) sz = (nd + sz) mod sz" by simp
    with 1(2,3) show ?thesis by (simp del: end_loop.simps add: end_loop.simps [of nd])
  next
    case False
    with 1(2,3) have "(nd + sz) mod sz = nd + sz" by (intro mod_pos_pos_trivial) auto
    with 1(2,3) False show ?thesis
      by (simp del: end_loop.simps add: end_loop.simps [of nd] end_loop.simps [of "nd + sz"])
  qed
qed

lemma update_if_only_exists_loop_count:
  "fst (update_if_only_exists_loop s n ms) = n + length (filter (\<lambda>m. fst m \<in> dom (dict s)) ms)"
proof (induction ms arbitrary: s n)
  case Nil
  then show ?case by simp
next
  case (Cons m ms)
  obtain k sc where m: "m = (k, sc)" by (cases m)
  show ?case
  proof (cases "dict s k")
    case None
    with m Cons.IH [of s n] show ?thesis by (simp add: domIff)
  next
    case (Some it)
    define s0 where "s0 = entry_update_score (list_erase s it) it sc"
    have "fst (insert_ordered s0 it) = True" by (rule insert_ordered_ok)
    moreover have "dict (snd (insert_ordered s0 it)) = dict s"
      by (simp add: s0_def entry_update_score_def list_erase_def)
    ultimately obtain s1 where io: "insert_ordered (entry_update_score (list_erase s it) it sc) it = (True, s1)"
      and d: "dict s1 = dict s"
      unfolding s0_def by (cases "insert_ordered (entry_update_score (list_erase s it) it sc) it") simp
    from io Some m have "update_if_only_exists_loop s n (m # ms) = update_if_only_exists_loop s1 (n + 1) ms"
      by simp
    with Cons.IH [of s1 "n + 1"] d Some m show ?thesis by (simp add: domIff)
  qed
qed

lemma length_filter_keys:
  assumes "distinct (map fst ms)"
  shows "length (filter (\<lambda>m. fst m \<in> D) ms) = card (fst ` set ms \<inter> D)"
proof -
  have "length (filter (\<lambda>m. fst m \<in> D) ms) = length (map fst (filter (\<lambda>m. fst m \<in> D) ms))"
    by simp
  also have "map fst (filter (\<lambda>m. fst m \<in> D) ms) = filter (\<lambda>k. k \<in> D) (map fst ms)"
    by (induction ms) auto
  also have "length (filter (\<lambda>k. k \<in> D) (map fst ms)) = card (set (filter (\<lambda>k. k \<in> D) (map fst ms)))"
    using assms by (intro distinct_card [symmetric] distinct_filter)
  also have "set (filter (\<lambda>k. k \<in> D) (map fst ms)) = fst ` set ms \<inter> D"
    by auto
  finally show ?thesis .
qed

lemma insert_or_update_gen:
  "fst (insert_or_update s k delta) =
     (case sset_score s k of Some old \<Rightarrow> delta + old | None \<Rightarrow> delta) \<and>
   sset_score (snd (insert_or_update s k delta)) k = Some (fst (insert_or_update s k delta))"
proof (cases "dict s k")
  case None
  obtain l where l: "snd (insert_ordered (snd (allocator_construct s k delta)) (next_addr s)) =
      (snd (allocator_construct s k delta))\<lparr>lst := l\<rparr>"
    using insert_ordered_frame by blast
  have ok: "fst (insert_ordered (snd (allocator_construct s k delta)) (next_addr s)) = True"
    by (rule insert_ordered_ok)
  obtain s1 where s1: "insert_ordered (snd (allocator_construct s k delta)) (next_addr s) = (True, s1)"
    using ok by (cases "insert_ordered (snd (allocator_construct s k delta)) (next_addr s)") simp
  with l have s1_eq: "s1 = (snd (allocator_construct s k delta))\<lparr>lst := l\<rparr>" by simp
  from None s1 show ?thesis
    by (simp add: insert_or_update_def sset_score_def sset_insert_def s1_eq
        allocator_construct_def key_at_def score_at_def)
next
  case (Some it)
  define s1 where "s1 = entry_update_score s it (delta + score_at s it)"
  obtain l where l: "snd (update s1 it) = (list_erase s1 it)\<lparr>lst := l\<rparr>"
    unfolding update_def using insert_ordered_frame by blast
  have d: "dict (snd (update s1 it)) = dict s" and m: "mem (snd (update s1 it)) = mem s1"
    unfolding l by (simp_all add: s1_def entry_update_score_def list_erase_def)
  have sc: "score_at (snd (update s1 it)) it = delta + score_at s it"
    unfolding score_at_def m by (simp add: s1_def entry_update_score_def score_at_def)
  have r: "insert_or_update s k delta = (delta + score_at s it, snd (update s1 it))"
    using Some by (simp add: insert_or_update_def Let_def s1_def)
  from Some show ?thesis
    unfolding r by (simp add: sset_score_def d sc)
qed

text \<open>
  The increment on doubles at two inputs: the sum is rounded (\<open>2 ^ 53\<close> incremented by
  \<open>1\<close> is \<open>2 ^ 53\<close>), the increment of an infinity by the opposite infinity is NaN, and
  the score that is stored is the value that is returned.
\<close>

lemma insert_new_score:
  "sset_score (snd (insert_new sset_new ''x'' d)) ''x'' = Some d"
  by (simp add: insert_new_def sset_insert_def sset_new_def allocator_construct_def
      key_at_def score_at_def sset_score_def split_beta insert_ordered_ok)

lemma insert_or_update_rounded:
  "fst (insert_or_update (snd (insert_new sset_new ''x'' (Fin (2 ^ 53 * 2 ^ 1074)))) ''x''
      (Fin (2 ^ 1074))) = Fin (2 ^ 53 * 2 ^ 1074)"
  "fst (insert_or_update (snd (insert_new sset_new ''x'' PInf)) ''x'' NInf) = NaN"
  "sset_score (snd (insert_or_update (snd (insert_new sset_new ''x'' PInf)) ''x'' NInf)) ''x'' =
      Some NaN"
proof -
  have "Fin (2 ^ 1074) + Fin (2 ^ 53 * 2 ^ 1074) = Fin (2 ^ 53 * 2 ^ 1074)"
    using double_add_tie by (simp only: double_plus_commute)
  with insert_or_update_gen [of "snd (insert_new sset_new ''x'' (Fin (2 ^ 53 * 2 ^ 1074)))" "''x''"
      "Fin (2 ^ 1074)"]
  show "fst (insert_or_update (snd (insert_new sset_new ''x'' (Fin (2 ^ 53 * 2 ^ 1074)))) ''x''
      (Fin (2 ^ 1074))) = Fin (2 ^ 53 * 2 ^ 1074)"
    by (simp only: insert_new_score option.case)
  have n: "NInf + PInf = NaN" by (simp add: plus_double_def)
  from insert_or_update_gen [of "snd (insert_new sset_new ''x'' PInf)" "''x''" NInf]
  show "fst (insert_or_update (snd (insert_new sset_new ''x'' PInf)) ''x'' NInf) = NaN"
    "sset_score (snd (insert_or_update (snd (insert_new sset_new ''x'' PInf)) ''x'' NInf)) ''x'' =
      Some NaN"
    by (simp_all only: insert_new_score option.case n)
qed

lemma sorted_map_remove1:
  fixes f :: "'a \<Rightarrow> 'b::linorder"
  shows "sorted (map f xs) \<Longrightarrow> sorted (map f (remove1 a xs))"
proof (induction xs)
  case Nil
  then show ?case by simp
next
  case (Cons x xs)
  then show ?case
    using set_remove1_subset [of a xs] by (auto)
qed

lemma invariant_dict_member:
  assumes "sset_invariant s" "e \<in> set (lst s)"
  shows "dict s (key_at s e) = Some e"
proof -
  from assms have "e \<in> ran (dict s)" by (simp add: sset_invariant_def)
  then obtain k where k: "dict s k = Some e" by (auto simp: ran_def)
  with assms(1) have "key_at s e = k" by (simp add: sset_invariant_def)
  with k show ?thesis by simp
qed

lemma invariant_dict_inj:
  assumes "sset_invariant s" "dict s k = Some a" "dict s k' = Some a"
  shows "k = k'"
proof -
  from assms(1) have "\<forall>k a. dict s k = Some a \<longrightarrow> key_at s a = k"
    by (simp add: sset_invariant_def)
  with assms(2,3) have "key_at s a = k" "key_at s a = k'" by blast+
  then show ?thesis by simp
qed

lemma filter_remove1_distinct:
  "distinct xs \<Longrightarrow> filter P (remove1 e xs) = filter (\<lambda>a. a \<noteq> e \<and> P a) xs"
proof (induction xs)
  case Nil
  then show ?case by simp
next
  case (Cons x xs)
  show ?case
  proof (cases "x = e")
    case True
    with Cons.prems have "e \<notin> set xs" by simp
    then have "filter P xs = filter (\<lambda>a. a \<noteq> e \<and> P a) xs"
      by (intro filter_cong) auto
    with True show ?thesis by simp
  next
    case False
    with Cons show ?thesis by simp
  qed
qed

lemma ran_remove_key:
  assumes "sset_invariant s" "dict s k = Some a"
  shows "ran ((dict s)(k := None)) = ran (dict s) - {a}"
proof
  show "ran ((dict s)(k := None)) \<subseteq> ran (dict s) - {a}"
  proof
    fix b assume "b \<in> ran ((dict s)(k := None))"
    then obtain k' where k': "k' \<noteq> k" "dict s k' = Some b"
      by (auto simp: ran_def split: if_splits)
    with assms have "b \<noteq> a" using invariant_dict_inj [of s k a k'] by auto
    with k' show "b \<in> ran (dict s) - {a}" by (auto simp: ran_def)
  qed
next
  show "ran (dict s) - {a} \<subseteq> ran ((dict s)(k := None))"
  proof
    fix b assume "b \<in> ran (dict s) - {a}"
    then obtain k' where k': "dict s k' = Some b" "b \<noteq> a" by (auto simp: ran_def)
    with assms have "k' \<noteq> k" by auto
    with k' show "b \<in> ran ((dict s)(k := None))" by (auto simp: ran_def)
  qed
qed

lemma erase_step_props:
  assumes inv: "sset_invariant s"
  shows "sset_invariant (erase_step s e)"
    and "lst (erase_step s e) = remove1 e (lst s)"
    and "set (lst (erase_step s e)) = set (lst s) - {e}"
    and "ran (dict (erase_step s e)) = ran (dict s) - {e}"
    and "live (erase_step s e) = live s - {e}"
    and "mem (erase_step s e) = mem s"
proof -
  have mem: "mem (erase_step s e) = mem s"
    by (simp add: erase_step_def allocator_destroy_def list_erase_def dict_erase_def)
  show "mem (erase_step s e) = mem s" by (rule mem)
  show l: "lst (erase_step s e) = remove1 e (lst s)"
    by (simp add: erase_step_def allocator_destroy_def list_erase_def dict_erase_def)
  from inv have dist: "distinct (lst s)" by (simp add: sset_invariant_def)
  then show sl: "set (lst (erase_step s e)) = set (lst s) - {e}"
    by (simp add: l)
  show "live (erase_step s e) = live s - {e}"
    by (simp add: erase_step_def allocator_destroy_def list_erase_def dict_erase_def)
  have d: "dict (erase_step s e) =
      (if dict s (key_at s e) = Some e then (dict s)(key_at s e := None) else dict s)"
    by (simp add: erase_step_def allocator_destroy_def list_erase_def dict_erase_def)
  show r: "ran (dict (erase_step s e)) = ran (dict s) - {e}"
  proof (cases "dict s (key_at s e) = Some e")
    case True
    with d ran_remove_key [OF inv True] show ?thesis by simp
  next
    case False
    have "e \<notin> set (lst s)"
      using invariant_dict_member [OF inv] False by blast
    with inv have "e \<notin> ran (dict s)" by (simp add: sset_invariant_def)
    with d False show ?thesis by simp
  qed
  have keys: "\<forall>k a. dict (erase_step s e) k = Some a \<longrightarrow> key_at (erase_step s e) a = k"
  proof (intro allI impI)
    fix k a assume "dict (erase_step s e) k = Some a"
    then have "dict s k = Some a" by (simp add: d split: if_splits)
    with inv have "key_at s a = k" by (simp add: sset_invariant_def)
    then show "key_at (erase_step s e) a = k" by (simp add: key_at_def mem)
  qed
  have "sorted (map (score_at s) (remove1 e (lst s)))"
    using inv by (intro sorted_map_remove1) (simp add: sset_invariant_def)
  then have srt: "sorted (map (score_at (erase_step s e)) (lst (erase_step s e)))"
    by (simp add: l score_at_def mem cong: map_cong)
  from inv have "ran (dict s) = set (lst s)" by (simp add: sset_invariant_def)
  with r sl have "ran (dict (erase_step s e)) = set (lst (erase_step s e))" by simp
  with dist keys srt show "sset_invariant (erase_step s e)"
    by (simp add: sset_invariant_def l)
qed

lemma erase_entries_loop_props:
  assumes "sset_invariant s"
  shows "sset_invariant (erase_entries_loop s es) \<and>
         lst (erase_entries_loop s es) = filter (\<lambda>a. a \<notin> set es) (lst s) \<and>
         ran (dict (erase_entries_loop s es)) = ran (dict s) - set es \<and>
         live (erase_entries_loop s es) = live s - set es \<and>
         mem (erase_entries_loop s es) = mem s"
  using assms
proof (induction es arbitrary: s)
  case Nil
  then show ?case by simp
next
  case (Cons e es)
  have step: "erase_entries_loop s (e # es) = erase_entries_loop (erase_step s e) es"
    by (simp add: erase_step_def)
  from Cons.prems have dist: "distinct (lst s)" by (simp add: sset_invariant_def)
  have f: "filter (\<lambda>a. a \<notin> set es) (remove1 e (lst s)) = filter (\<lambda>a. a \<notin> set (e # es)) (lst s)"
    using filter_remove1_distinct [OF dist, of "\<lambda>a. a \<notin> set es" e] by simp
  from Cons.IH [OF erase_step_props(1) [OF Cons.prems, of e]]
    erase_step_props(2-6) [OF Cons.prems, of e] f
  show ?case unfolding step by auto
qed

lemma sset_123_invariant: "sset_invariant sset_123"
proof -
  have "ran (dict sset_123) = set (lst sset_123)"
    by (simp add: sset_123_eq ran_map_upd insert_commute)
  moreover have "\<forall>k a. dict sset_123 k = Some a \<longrightarrow> key_at sset_123 a = k"
    by (simp add: sset_123_eq key_at_def)
  moreover have "distinct (lst sset_123)" "sorted (map (score_at sset_123) (lst sset_123))"
    by (simp_all add: sset_123_eq score_at_def)
  ultimately show ?thesis
    unfolding sset_invariant_def by blast
qed

subsection \<open>The mutations keep the invariant\<close>

text \<open>
  Every mutation keeps the invariant when it starts from a state that satisfies it, with
  one exception: \<open>insert\<close> of an entry whose key is linked already (see claim C3 below).
  \<open>insert_new\<close> on an absent key, the three bulk operations, the increment and the two
  removals are covered by \<open>mutations_preserve_invariant\<close>.
\<close>

lemma sorted_insert_between:
  fixes f :: "'a \<Rightarrow> 'b::linorder"
  assumes "sorted (map f xs)"
  shows "sorted (map f (takeWhile (\<lambda>y. f y \<le> f e) xs @ e # dropWhile (\<lambda>y. f y \<le> f e) xs))"
proof -
  let ?P = "\<lambda>y. f y \<le> f e"
  have split: "xs = takeWhile ?P xs @ dropWhile ?P xs" by simp
  from assms have "sorted_wrt (\<lambda>x y. f x \<le> f y) (takeWhile ?P xs @ dropWhile ?P xs)"
    by (simp add: sorted_map)
  then have a: "sorted_wrt (\<lambda>x y. f x \<le> f y) (takeWhile ?P xs)"
    and b: "sorted_wrt (\<lambda>x y. f x \<le> f y) (dropWhile ?P xs)"
    by (simp_all add: sorted_wrt_append)
  have c: "\<forall>x \<in> set (takeWhile ?P xs). f x \<le> f e" by (auto dest: set_takeWhileD)
  from sorted_dropWhile_gt [OF assms, of "f e"]
  have d: "\<forall>y \<in> set (dropWhile ?P xs). f e < f y" .
  from a b c d show ?thesis
    by (fastforce simp: sorted_map sorted_wrt_append)
qed

lemma key_at_insert_ordered [simp]: "key_at (snd (insert_ordered s e)) = key_at s"
  by (simp add: key_at_def fun_eq_iff)

lemma score_at_insert_ordered [simp]: "score_at (snd (insert_ordered s e)) = score_at s"
  by (simp add: score_at_def fun_eq_iff)

lemma key_at_dict_update [simp]: "key_at (s\<lparr>dict := d\<rparr>) = key_at s"
  by (simp add: key_at_def fun_eq_iff)

lemma score_at_dict_update [simp]: "score_at (s\<lparr>dict := d\<rparr>) = score_at s"
  by (simp add: score_at_def fun_eq_iff)

lemma insert_ordered_props:
  assumes "distinct (lst s)" and "e \<notin> set (lst s)" and "sorted (map (score_at s) (lst s))"
  shows "distinct (lst (snd (insert_ordered s e)))"
    and "set (lst (snd (insert_ordered s e))) = insert e (set (lst s))"
    and "sorted (map (score_at (snd (insert_ordered s e))) (lst (snd (insert_ordered s e))))"
proof -
  let ?P = "\<lambda>y. score_at s y \<le> score_at s e"
  have l: "lst (snd (insert_ordered s e)) = takeWhile ?P (lst s) @ e # dropWhile ?P (lst s)"
    by (simp add: insert_ordered_lst)
  have sc: "score_at (snd (insert_ordered s e)) = score_at s" by simp
  have st: "set (takeWhile ?P (lst s)) \<union> set (dropWhile ?P (lst s)) = set (lst s)"
    by (metis set_append takeWhile_dropWhile_id)
  have "distinct (takeWhile ?P (lst s) @ dropWhile ?P (lst s))" using assms(1) by simp
  then have "distinct (takeWhile ?P (lst s))" "distinct (dropWhile ?P (lst s))"
    "set (takeWhile ?P (lst s)) \<inter> set (dropWhile ?P (lst s)) = {}"
    by (simp_all only: distinct_append)
  moreover from st assms(2)
  have "e \<notin> set (takeWhile ?P (lst s))" "e \<notin> set (dropWhile ?P (lst s))" by auto
  ultimately show "distinct (lst (snd (insert_ordered s e)))" unfolding l by auto
  from st show "set (lst (snd (insert_ordered s e))) = insert e (set (lst s))" unfolding l by auto
  from sorted_insert_between [OF assms(3), of e]
  show "sorted (map (score_at (snd (insert_ordered s e))) (lst (snd (insert_ordered s e))))"
    unfolding l sc .
qed

lemma sset_insert_absent:
  assumes ok: "sset_ok s" and e: "e \<notin> set (lst s)" "e < next_addr s"
    and k: "dict s (key_at s e) = None"
  shows "fst (sset_insert s e) = True" and "sset_ok (snd (sset_insert s e))"
    and "dict (snd (sset_insert s e)) = (dict s)(key_at s e \<mapsto> e)"
proof -
  let ?s1 = "snd (insert_ordered s e)"
  from k have res: "sset_insert s e = (True, ?s1\<lparr>dict := (dict s)(key_at s e \<mapsto> e)\<rparr>)"
    by (simp add: sset_insert_def insert_ordered_lst) (simp add: key_at_def)
  then show "fst (sset_insert s e) = True" by simp
  from res show "dict (snd (sset_insert s e)) = (dict s)(key_at s e \<mapsto> e)" by simp
  from ok have inv: "distinct (lst s)" "ran (dict s) = set (lst s)"
    "\<forall>k a. dict s k = Some a \<longrightarrow> key_at s a = k" "sorted (map (score_at s) (lst s))"
    and fr: "\<forall>a \<in> set (lst s). a < next_addr s"
    by (simp_all add: sset_ok_def sset_invariant_def)
  note p = insert_ordered_props [OF inv(1) e(1) inv(4)]
  let ?s2 = "?s1\<lparr>dict := (dict s)(key_at s e \<mapsto> e)\<rparr>"
  from res have s2: "snd (sset_insert s e) = ?s2" by simp
  have "distinct (lst ?s2)" using p(1) by simp
  moreover have "ran (dict ?s2) = set (lst ?s2)" using p(2) inv(2) k by simp
  moreover have "\<forall>k a. dict ?s2 k = Some a \<longrightarrow> key_at ?s2 a = k"
    using inv(3) by auto
  moreover have "sorted (map (score_at ?s2) (lst ?s2))"
    using p(3) by simp
  moreover have "\<forall>a \<in> set (lst ?s2). a < next_addr ?s2"
    using p(2) fr e(2) by simp
  ultimately show "sset_ok (snd (sset_insert s e))"
    unfolding s2 sset_ok_def sset_invariant_def by blast
qed

lemma allocator_construct_ok:
  assumes ok: "sset_ok s" and c: "allocator_construct s k sc = (e, s1)"
  shows "sset_ok s1" and "e \<notin> set (lst s1)" and "e < next_addr s1" and "key_at s1 e = k"
    and "dict s1 = dict s" and "score_at s1 e = sc"
proof -
  from c have e: "e = next_addr s"
    and s1: "s1 = s\<lparr>mem := (mem s)(next_addr s := \<lparr>entry_key = k, entry_score = sc\<rparr>),
                   live := insert (next_addr s) (live s), next_addr := Suc (next_addr s)\<rparr>"
    by (auto simp: allocator_construct_def)
  from ok have inv: "distinct (lst s)" "ran (dict s) = set (lst s)"
    "\<forall>k a. dict s k = Some a \<longrightarrow> key_at s a = k" "sorted (map (score_at s) (lst s))"
    and fr: "\<forall>a \<in> set (lst s). a < next_addr s"
    by (simp_all add: sset_ok_def sset_invariant_def)
  from fr have nl: "next_addr s \<notin> set (lst s)" by auto
  show "e \<notin> set (lst s1)" using nl by (simp add: e s1)
  show "e < next_addr s1" by (simp add: e s1)
  show "key_at s1 e = k" by (simp add: e s1 key_at_def)
  show "score_at s1 e = sc" by (simp add: e s1 score_at_def)
  show "dict s1 = dict s" by (simp add: s1)
  have same: "\<And>a. a \<in> set (lst s) \<Longrightarrow> mem s1 a = mem s a"
    using nl by (auto simp: s1)
  have meq: "map (score_at s1) (lst s) = map (score_at s) (lst s)"
    by (rule map_cong [OF refl]) (simp add: score_at_def same)
  have ls: "lst s1 = lst s" by (simp add: s1)
  have srt: "sorted (map (score_at s1) (lst s1))"
    unfolding ls meq by (rule inv(4))
  have keys: "\<forall>k a. dict s1 k = Some a \<longrightarrow> key_at s1 a = k"
  proof (intro allI impI)
    fix k' a assume d: "dict s1 k' = Some a"
    then have d': "dict s k' = Some a" by (simp add: s1)
    then have "a \<in> ran (dict s)" by (auto simp: ran_def)
    with inv(2) have "a \<in> set (lst s)" by simp
    from same [OF this] inv(3) d' show "key_at s1 a = k'" by (simp add: key_at_def)
  qed
  have "distinct (lst s1)" "ran (dict s1) = set (lst s1)" "\<forall>a \<in> set (lst s1). a < next_addr s1"
    using inv(1,2) fr by (auto simp: s1)
  with srt keys show "sset_ok s1"
    unfolding sset_ok_def sset_invariant_def by blast
qed

lemma insert_new_ok:
  assumes ok: "sset_ok s" and k: "dict s k = None"
  shows "fst (insert_new s k sc) = True" and "sset_ok (snd (insert_new s k sc))"
    and "dict (snd (insert_new s k sc)) k \<noteq> None"
proof -
  obtain e s1 where c: "allocator_construct s k sc = (e, s1)" by (cases "allocator_construct s k sc")
  note a = allocator_construct_ok [OF ok c]
  from k a(4,5) have kn: "dict s1 (key_at s1 e) = None" by simp
  note i = sset_insert_absent [OF a(1) a(2) a(3) kn]
  from c i(1) show "fst (insert_new s k sc) = True" by (simp add: insert_new_def)
  from c i(2) show "sset_ok (snd (insert_new s k sc))" by (simp add: insert_new_def)
  from c i(3) a(4) show "dict (snd (insert_new s k sc)) k \<noteq> None" by (simp add: insert_new_def)
qed

lemma reinsert_ok:
  assumes ok: "sset_ok s" and e: "e \<in> set (lst s)"
  shows "sset_ok (snd (insert_ordered (entry_update_score (list_erase s e) e sc) e))"
proof -
  from ok have inv: "distinct (lst s)" "ran (dict s) = set (lst s)"
    "\<forall>k a. dict s k = Some a \<longrightarrow> key_at s a = k" "sorted (map (score_at s) (lst s))"
    and fr: "\<forall>a \<in> set (lst s). a < next_addr s"
    by (simp_all add: sset_ok_def sset_invariant_def)
  let ?s2 = "entry_update_score (list_erase s e) e sc"
  have l2: "lst ?s2 = remove1 e (lst s)" by (simp add: entry_update_score_def list_erase_def)
  have d2: "dict ?s2 = dict s" "next_addr ?s2 = next_addr s"
    by (simp_all add: entry_update_score_def list_erase_def)
  have k2: "key_at ?s2 = key_at s"
    by (simp add: entry_update_score_def list_erase_def key_at_def fun_eq_iff)
  from inv(1) have ne: "e \<notin> set (remove1 e (lst s))" by simp
  then have meq: "map (score_at ?s2) (remove1 e (lst s)) = map (score_at s) (remove1 e (lst s))"
    by (auto simp: entry_update_score_def list_erase_def score_at_def)
  have "sorted (map (score_at ?s2) (remove1 e (lst s)))"
    by (subst meq) (rule sorted_map_remove1 [OF inv(4)])
  then have s2: "sorted (map (score_at ?s2) (lst ?s2))" by (simp only: l2)
  from inv(1) have dd: "distinct (lst ?s2)" by (simp add: l2)
  from ne have ne2: "e \<notin> set (lst ?s2)" by (simp add: l2)
  note p = insert_ordered_props [OF dd ne2 s2]
  let ?s3 = "snd (insert_ordered ?s2 e)"
  from p(2) inv(1) e have set3: "set (lst ?s3) = set (lst s)" by (auto simp: l2)
  have "ran (dict ?s3) = set (lst ?s3)" using set3 inv(2) d2 by simp
  moreover have "\<forall>k a. dict ?s3 k = Some a \<longrightarrow> key_at ?s3 a = k"
    using inv(3) d2 k2 by simp
  moreover have "\<forall>a \<in> set (lst ?s3). a < next_addr ?s3" using set3 fr d2 by simp
  ultimately show ?thesis using p(1,3)
    unfolding sset_ok_def sset_invariant_def by blast
qed

lemma insert_if_not_exists_loop_ok:
  "sset_ok s \<Longrightarrow> sset_ok (snd (insert_if_not_exists_loop s n ms))"
proof (induction ms arbitrary: s n)
  case Nil
  then show ?case by simp
next
  case (Cons m ms)
  obtain k sc where m: "m = (k, sc)" by (cases m)
  show ?case
  proof (cases "dict s k")
    case (Some a)
    with m Cons.IH [OF Cons.prems] show ?thesis by simp
  next
    case None
    obtain e s1 where c: "allocator_construct s k sc = (e, s1)"
      by (cases "allocator_construct s k sc")
    obtain ok s2 where i: "sset_insert s1 e = (ok, s2)" by (cases "sset_insert s1 e")
    from c i have "insert_new s k sc = (ok, s2)" by (simp add: insert_new_def)
    with insert_new_ok(1,2) [OF Cons.prems None, of sc] have ok: "ok" and s2: "sset_ok s2" by simp_all
    from c i ok m None have "insert_if_not_exists_loop s n (m # ms) = insert_if_not_exists_loop s2 (n + 1) ms"
      by simp
    with Cons.IH [OF s2] show ?thesis by simp
  qed
qed

lemma dict_in_list:
  assumes "sset_ok s" and "dict s k = Some a"
  shows "a \<in> set (lst s)"
proof -
  from assms(2) have "a \<in> ran (dict s)" by (auto simp: ran_def)
  with assms(1) show ?thesis by (simp add: sset_ok_def sset_invariant_def)
qed

lemma update_if_only_exists_loop_ok:
  "sset_ok s \<Longrightarrow> sset_ok (snd (update_if_only_exists_loop s n ms))"
proof (induction ms arbitrary: s n)
  case Nil
  then show ?case by simp
next
  case (Cons m ms)
  obtain k sc where m: "m = (k, sc)" by (cases m)
  show ?case
  proof (cases "dict s k")
    case None
    with m Cons.IH [OF Cons.prems] show ?thesis by simp
  next
    case (Some it)
    obtain ok s1 where i: "insert_ordered (entry_update_score (list_erase s it) it sc) it = (ok, s1)"
      by (cases "insert_ordered (entry_update_score (list_erase s it) it sc) it")
    from reinsert_ok [OF Cons.prems dict_in_list [OF Cons.prems Some], of sc] i
    have s1: "sset_ok s1" by simp
    from i m Some have "snd (update_if_only_exists_loop s n (m # ms)) =
        snd (update_if_only_exists_loop s1 (if ok then n + 1 else n) ms)"
      by simp
    with Cons.IH [OF s1] show ?thesis by simp
  qed
qed

lemma update_reinsert:
  "update (entry_update_score s e sc) e = insert_ordered (entry_update_score (list_erase s e) e sc) e"
proof -
  have "list_erase (entry_update_score s e sc) e = entry_update_score (list_erase s e) e sc"
    by (rule sset_lsa.equality) (simp_all add: entry_update_score_def list_erase_def)
  then show ?thesis by (simp add: update_def)
qed

lemma insert_or_update_loop_ok:
  "sset_ok s \<Longrightarrow> sset_ok (snd (insert_or_update_loop s n ms))"
proof (induction ms arbitrary: s n)
  case Nil
  then show ?case by simp
next
  case (Cons m ms)
  obtain k sc where m: "m = (k, sc)" by (cases m)
  show ?case
  proof (cases "dict s k")
    case None
    obtain e s1 where c: "allocator_construct s k sc = (e, s1)"
      by (cases "allocator_construct s k sc")
    obtain ok s2 where i: "sset_insert s1 e = (ok, s2)" by (cases "sset_insert s1 e")
    from c i have "insert_new s k sc = (ok, s2)" by (simp add: insert_new_def)
    with insert_new_ok(2) [OF Cons.prems None, of sc] have s2: "sset_ok s2" by simp
    from c i m None have "snd (insert_or_update_loop s n (m # ms)) =
        snd (insert_or_update_loop s2 (if ok then n + 1 else n) ms)"
      by simp
    with Cons.IH [OF s2] show ?thesis by simp
  next
    case (Some it)
    obtain ok s1 where i: "update (entry_update_score s it sc) it = (ok, s1)"
      by (cases "update (entry_update_score s it sc) it")
    from reinsert_ok [OF Cons.prems dict_in_list [OF Cons.prems Some], of sc] i
    have s1: "sset_ok s1" by (simp add: update_reinsert)
    from i m Some have "snd (insert_or_update_loop s n (m # ms)) =
        snd (insert_or_update_loop s1 (if ok then n + 1 else n) ms)"
      by simp
    with Cons.IH [OF s1] show ?thesis by simp
  qed
qed

lemma insert_or_update_ok:
  assumes "sset_ok s"
  shows "sset_ok (snd (insert_or_update s k delta))"
proof (cases "dict s k")
  case None
  with insert_new_ok(2) [OF assms None, of delta] show ?thesis
    by (simp add: insert_or_update_def insert_new_def split: prod.splits)
next
  case (Some it)
  with reinsert_ok [OF assms dict_in_list [OF assms Some], of "delta + score_at s it"]
  show ?thesis by (simp add: insert_or_update_def Let_def update_reinsert)
qed

lemma erase_step_ok:
  assumes "sset_ok s"
  shows "sset_ok (erase_step s e)"
proof -
  from assms have inv: "sset_invariant s" and fr: "\<forall>a \<in> set (lst s). a < next_addr s"
    by (simp_all add: sset_ok_def)
  have "next_addr (erase_step s e) = next_addr s"
    by (simp add: erase_step_def allocator_destroy_def list_erase_def dict_erase_def)
  with erase_step_props(1,3) [OF inv, of e] fr show ?thesis by (simp add: sset_ok_def)
qed

lemma erase_entries_loop_ok: "sset_ok s \<Longrightarrow> sset_ok (erase_entries_loop s es)"
proof (induction es arbitrary: s)
  case Nil
  then show ?case by simp
next
  case (Cons e es)
  from Cons.IH [OF erase_step_ok [OF Cons.prems, of e]] show ?case by (simp add: erase_step_def)
qed

lemma erase_keys_loop_ok: "sset_ok s \<Longrightarrow> sset_ok (snd (erase_keys_loop s n ks))"
proof (induction ks arbitrary: s n)
  case Nil
  then show ?case by simp
next
  case (Cons k ks)
  show ?case
  proof (cases "dict s k")
    case None
    with Cons.IH [OF Cons.prems] show ?thesis by simp
  next
    case (Some dit)
    from Cons.prems Some have "key_at s dit = k" by (simp add: sset_ok_def sset_invariant_def)
    with Some have "allocator_destroy (list_erase (s\<lparr>dict := (dict s)(k := None)\<rparr>) dit) dit = erase_step s dit"
      by (simp add: erase_step_def dict_erase_def)
    with Some Cons.IH [OF erase_step_ok [OF Cons.prems, of dit]] show ?thesis by simp
  qed
qed

lemma invariant_sizes:
  assumes "sset_invariant s"
  shows "card (dom (dict s)) = length (lst s)" and "sset_size s = length (lst s)"
proof -
  from assms have r: "ran (dict s) = set (lst s)" and d: "distinct (lst s)"
    by (simp_all add: sset_invariant_def)
  have inj: "inj_on (\<lambda>k. the (dict s k)) (dom (dict s))"
  proof (rule inj_onI)
    fix k k' assume "k \<in> dom (dict s)" "k' \<in> dom (dict s)" "the (dict s k) = the (dict s k')"
    then obtain a where "dict s k = Some a" "dict s k' = Some a" by auto
    from invariant_dict_inj [OF assms this] show "k = k'" .
  qed
  have img: "(\<lambda>k. the (dict s k)) ` dom (dict s) = ran (dict s)"
    by (force simp: ran_def dom_def image_iff)
  from card_image [OF inj] img r have "card (dom (dict s)) = card (set (lst s))" by simp
  with d show "card (dom (dict s)) = length (lst s)" by (simp add: distinct_card)
  show "sset_size s = length (lst s)" by (simp add: sset_size_def)
qed

lemma mutations_preserve_invariant:
  assumes "sset_ok s"
  shows "sset_ok (snd (insert_if_not_exists s members))"
    and "sset_ok (snd (update_if_only_exists s members))"
    and "sset_ok (snd (insert_or_update_members s members))"
    and "sset_ok (snd (insert_or_update s k delta))"
    and "sset_ok (snd (erase_keys s ks))"
    and "sset_ok (snd (erase_entries s es))"
    and "dict s k = None \<Longrightarrow> sset_ok (snd (insert_new s k sc))"
  using assms
  by (simp_all add: insert_if_not_exists_def insert_if_not_exists_loop_ok
      update_if_only_exists_def update_if_only_exists_loop_ok
      insert_or_update_members_def insert_or_update_loop_ok insert_or_update_ok
      erase_keys_def erase_keys_loop_ok erase_entries_def erase_entries_loop_ok insert_new_ok(2))

lemma sset_new_ok: "sset_ok sset_new"
  by (simp add: sset_ok_def sset_invariant_def sset_new_def)

subsection \<open>Ranges by rank\<close>

text \<open>
  What \<open>fetch_by_rank\<close> returns on a set that is not empty: with \<open>n\<close> the size, \<open>b\<close> the
  begin index after one addition of \<open>n\<close> to a negative value and the clamp to 0, and \<open>e\<close>
  the end index after the loop that adds \<open>n\<close> until the value is not negative, the result
  is empty when \<open>e < b\<close> or \<open>e \<le> 0\<close>, and otherwise holds the entries of the ranks \<open>b\<close> to
  \<open>e\<close> that exist.
\<close>

lemma fetch_loop_eq:
  "fetch_loop s bgn nd rank xs entries =
     entries @ map (entry_pair s) (take (nat (nd + 1 - max bgn rank)) (drop (nat (bgn - rank)) xs))"
proof (induction xs arbitrary: rank entries)
  case Nil
  then show ?case by simp
next
  case (Cons x xs)
  consider "rank < bgn" | "bgn \<le> rank" "nd < rank" | "bgn \<le> rank" "rank \<le> nd" by linarith
  then show ?case
  proof cases
    case 1
    then have a: "nat (bgn - rank) = Suc (nat (bgn - (rank + 1)))" by simp
    from 1 have b: "max bgn (rank + 1) = max bgn rank" by simp
    from 1 Cons.IH [of "rank + 1" entries] show ?thesis by (simp add: a b)
  next
    case 2
    then show ?thesis by simp
  next
    case 3
    then have m1: "max bgn rank = rank" "max bgn (rank + 1) = rank + 1" by simp_all
    from 3 have a: "nat (nd + 1 - rank) = Suc (nat (nd + 1 - (rank + 1)))" by simp
    from 3 have b: "nat (bgn - rank) = 0" "nat (bgn - (rank + 1)) = 0" by simp_all
    have "fetch_loop s bgn nd rank (x # xs) entries =
        fetch_loop s bgn nd (rank + 1) xs (entries @ [(key_at s x, score_at s x)])"
      using 3 by simp
    also have "\<dots> = (entries @ [(key_at s x, score_at s x)]) @
        map (entry_pair s) (take (nat (nd + 1 - (rank + 1))) xs)"
      unfolding Cons.IH m1 b by simp
    also have "\<dots> = entries @ map (entry_pair s) (take (nat (nd + 1 - rank)) (x # xs))"
      unfolding a by (simp add: entry_pair_def)
    finally show ?thesis unfolding m1 b by simp
  qed
qed

lemma fetch_by_rank_eq:
  assumes "lst s \<noteq> []"
  shows "fetch_by_rank s bgn nd [] =
     (let n = int (length (lst s));
          b = (if bgn < 0 then max 0 (bgn + n) else bgn);
          e = (if nd < 0 then nd mod n else nd)
      in if e < b \<or> e \<le> 0 then []
         else map (entry_pair s) (take (nat (e + 1 - b)) (drop (nat b) (lst s))))"
proof -
  define n where "n = int (length (lst s))"
  define b where "b = (if bgn < 0 then max 0 (bgn + n) else bgn)"
  define e where "e = (if nd < 0 then nd mod n else nd)"
  from assms have n: "0 < n" by (simp add: n_def)
  have el: "end_loop nd n = e"
    using n by (cases "nd < 0") (simp_all add: e_def end_loop_neg end_loop_nonneg del: end_loop.simps)
  have b2: "(if (if bgn < 0 then bgn + n else bgn) < 0 then 0 else (if bgn < 0 then bgn + n else bgn)) = b"
    by (auto simp: b_def)
  have b0: "0 \<le> b \<or> bgn = b" by (auto simp: b_def)
  show ?thesis
  proof (cases "e < b \<or> e \<le> 0")
    case True
    with assms el b2 show ?thesis
      unfolding fetch_by_rank_def Let_def rank_out_of_range_def n_def [symmetric] b_def [symmetric] e_def [symmetric]
      by (auto simp del: end_loop.simps)
  next
    case False
    then have be: "b \<le> e" "0 < e" by simp_all
    have bn: "0 \<le> b" by (auto simp: b_def)
    have dn: "drop (nat n) (lst s) = []" by (simp add: n_def)
    have db: "n < b \<Longrightarrow> drop (nat b) (lst s) = []" by (simp add: n_def)
    from n bn have mx: "max n 0 = n" "max b 0 = b" by simp_all
    from False assms el b2 be show ?thesis
      unfolding fetch_by_rank_def Let_def rank_out_of_range_def n_def [symmetric] b_def [symmetric] e_def [symmetric]
      by (simp del: end_loop.simps add: fetch_loop_eq dn db mx)
  qed
qed

subsection \<open>Claims on the sorted-set index\<close>



text \<open>
  Claim C9. \<open>update_if_only_exists\<close> returns the number of members of the input whose key
  is present in the dictionary, whatever the new scores are; the keys of a map are
  distinct, so this is the number of keys of the input map that are present. The reason
  is that \<open>insert_ordered\<close> reports success for every list and every entry.
\<close>

theorem update_if_only_exists_count:
  "fst (insert_ordered s e) = True \<and>
   fst (update_if_only_exists s members) =
     length (filter (\<lambda>m. fst m \<in> dom (dict s)) members) \<and>
   (distinct (map fst members) \<longrightarrow>
      fst (update_if_only_exists s members) = card (fst ` set members \<inter> dom (dict s)))"
  using length_filter_keys [of members "dom (dict s)"]
  by (simp add: update_if_only_exists_def update_if_only_exists_loop_count insert_ordered_ok)

theorem update_if_only_exists_count_witness:
  "distinct (map fst [(''b'', 2::real), (''z'', 5), (''a'', 7)]) \<and>
   fst (update_if_only_exists sset_123 [(''b'', 2), (''z'', 5), (''a'', 7)]) = 2"
proof -
  have d: "distinct (map fst [(''b'', 2::real), (''z'', 5), (''a'', 7)])" by simp
  have "fst ` set [(''b'', 2::real), (''z'', 5), (''a'', 7)] \<inter> dom (dict sset_123) = {''a'', ''b''}"
    by (auto simp: sset_123_eq)
  with update_if_only_exists_count [of sset_123 0 "[(''b'', 2), (''z'', 5), (''a'', 7)]"] d
  show ?thesis by simp
qed

text \<open>
  Claim C10. \<open>erase\<close> over a vector of entry pointers returns the length of the vector,
  for every state and every vector. When the listed entries are distinct current members
  of a set that satisfies the invariant, each of them is unlinked from the list and from
  the dictionary and is destroyed, the other entries stay linked in their order, and the
  invariant holds again.
\<close>

theorem erase_entries_count:
  "fst (erase_entries s entries) = length entries \<and>
   (sset_invariant s \<and> distinct entries \<and> set entries \<subseteq> set (lst s) \<longrightarrow>
      lst (snd (erase_entries s entries)) = filter (\<lambda>a. a \<notin> set entries) (lst s) \<and>
      ran (dict (snd (erase_entries s entries))) = ran (dict s) - set entries \<and>
      live (snd (erase_entries s entries)) = live s - set entries \<and>
      sset_invariant (snd (erase_entries s entries)) \<and>
      sset_size (snd (erase_entries s entries)) + length entries = sset_size s)"
proof (rule conjI, goal_cases)
  case 1
  show ?case by (simp add: erase_entries_def)
next
  case 2
  show ?case
  proof (rule impI)
  assume a: "sset_invariant s \<and> distinct entries \<and> set entries \<subseteq> set (lst s)"
  then have inv: "sset_invariant s" and de: "distinct entries" and sub: "set entries \<subseteq> set (lst s)"
    by simp_all
  from inv have dist: "distinct (lst s)" by (simp add: sset_invariant_def)
  have "length (filter (\<lambda>a. a \<notin> set entries) (lst s)) +
        length (filter (\<lambda>a. a \<in> set entries) (lst s)) = length (lst s)"
    using sum_length_filter_compl [of "\<lambda>a. a \<in> set entries" "lst s"] by simp
  moreover have "length (filter (\<lambda>a. a \<in> set entries) (lst s)) =
      card (set (filter (\<lambda>a. a \<in> set entries) (lst s)))"
    using dist by (metis distinct_card distinct_filter)
  moreover have "set (filter (\<lambda>a. a \<in> set entries) (lst s)) = set entries"
    using sub by auto
  moreover have "card (set entries) = length entries"
    using de by (simp add: distinct_card)
  ultimately have "length (filter (\<lambda>a. a \<notin> set entries) (lst s)) + length entries = length (lst s)"
    by simp
  with erase_entries_loop_props [OF inv, of entries]
  show "lst (snd (erase_entries s entries)) = filter (\<lambda>a. a \<notin> set entries) (lst s) \<and>
      ran (dict (snd (erase_entries s entries))) = ran (dict s) - set entries \<and>
      live (snd (erase_entries s entries)) = live s - set entries \<and>
      sset_invariant (snd (erase_entries s entries)) \<and>
      sset_size (snd (erase_entries s entries)) + length entries = sset_size s"
    by (simp add: erase_entries_def sset_size_def)
  qed
qed

theorem erase_entries_count_witness:
  "sset_invariant sset_123 \<and> distinct [2, 0 :: addr] \<and> set [2, 0] \<subseteq> set (lst sset_123) \<and>
   fst (erase_entries sset_123 [2, 0]) = 2 \<and>
   lst (snd (erase_entries sset_123 [2, 0])) = [1] \<and>
   live (snd (erase_entries sset_123 [2, 0])) = {1}"
proof -
  have a: "distinct [2, 0 :: addr]" by simp
  have b: "set [2, 0] \<subseteq> set (lst sset_123)" by (simp add: sset_123_eq)
  have c: "lst sset_123 = [0, 1, 2]" "live sset_123 = {0, 1, 2}" by (simp_all add: sset_123_eq)
  have d: "{Suc 0, 2} - {2, 0 :: addr} = {Suc 0}" by auto
  from erase_entries_count [of sset_123 "[2, 0]"] sset_123_invariant a b
  show ?thesis by (simp add: c d)
qed

text \<open>
  Claim C5. The increment \<open>insert_or_update(key, delta)\<close>, with the scores the doubles
  of the machine: it returns the sum of the old score and \<open>delta\<close> (the rounded sum of the
  two doubles, an infinity or NaN as the addition of doubles gives it) when the key is
  present and \<open>delta\<close> otherwise, and afterwards \<open>score(key)\<close> is the returned value. In
  particular, on the empty set, inserting x with score 1.0 returns true, the increment of
  x by 2.5 returns 3.5, and the score of x is then 3.5.
\<close>

theorem insert_or_update_result:
  fixes s :: "double sset_lsa"
  shows
  "fst (insert_or_update s k delta) =
     (case sset_score s k of Some old \<Rightarrow> old + delta | None \<Rightarrow> delta) \<and>
   sset_score (snd (insert_or_update s k delta)) k = Some (fst (insert_or_update s k delta)) \<and>
   valof (Fin (2 * 2 ^ 1073)) = Some 1 \<and>
   valof (Fin (5 * 2 ^ 1073)) = Some 2.5 \<and>
   valof (Fin (7 * 2 ^ 1073)) = Some 3.5 \<and>
   fst (insert_new sset_new ''x'' (Fin (2 * 2 ^ 1073))) = True \<and>
   fst (insert_or_update (snd (insert_new sset_new ''x'' (Fin (2 * 2 ^ 1073)))) ''x''
          (Fin (5 * 2 ^ 1073))) = Fin (7 * 2 ^ 1073) \<and>
   sset_score (snd (insert_or_update (snd (insert_new sset_new ''x'' (Fin (2 * 2 ^ 1073)))) ''x''
          (Fin (5 * 2 ^ 1073)))) ''x'' = Some (Fin (7 * 2 ^ 1073))"
proof -
  define x1 where "x1 = Fin (2 * 2 ^ 1073)"
  define s1 where "s1 = snd (insert_new sset_new ''x'' x1)"
  have comm: "old + delta = delta + old" for old delta :: double
    by (simp add: plus_double_def double_add_commute)
  have gen: "fst (insert_or_update s k delta) =
     (case sset_score s k of Some old \<Rightarrow> old + delta | None \<Rightarrow> delta) \<and>
   sset_score (snd (insert_or_update s k delta)) k = Some (fst (insert_or_update s k delta))"
    for s :: "double sset_lsa" and k delta
    using insert_or_update_gen [of s k delta] by (simp add: comm [symmetric] split: option.splits)
  have v: "valof (Fin (2 * 2 ^ 1073)) = Some 1" "valof (Fin (5 * 2 ^ 1073)) = Some 2.5"
    "valof (Fin (7 * 2 ^ 1073)) = Some 3.5"
    by simp_all
  have ins: "fst (insert_new sset_new ''x'' x1) = True"
    by (simp add: insert_new_def sset_insert_def insert_ordered_def sset_new_def
        allocator_construct_def key_at_def)
  have sc: "sset_score s1 ''x'' = Some x1"
    unfolding s1_def
    by (simp add: insert_new_def sset_insert_def insert_ordered_def sset_new_def
        allocator_construct_def key_at_def score_at_def sset_score_def)
  have "(2::int) * 2 ^ 1073 + 5 * 2 ^ 1073 = 7 * 2 ^ 1073" by simp
  then have sum: "x1 + Fin (5 * 2 ^ 1073) = Fin (7 * 2 ^ 1073)"
    using round_to_double_exact [of 7 1073] by (simp add: plus_double_def x1_def)
  from gen [of s1 "''x''" "Fin (5 * 2 ^ 1073)"] sc sum
  have "fst (insert_or_update s1 ''x'' (Fin (5 * 2 ^ 1073))) = Fin (7 * 2 ^ 1073)"
    "sset_score (snd (insert_or_update s1 ''x'' (Fin (5 * 2 ^ 1073)))) ''x'' = Some (Fin (7 * 2 ^ 1073))"
    by simp_all
  with gen [of s k delta] v ins show ?thesis
    unfolding s1_def x1_def by simp
qed

text \<open>
  Claim C3, at the input where the source departs from it. \<open>insert\<close> of a second entry
  whose key is linked already: \<open>insert_ordered\<close> links the entry into the list before
  \<open>_dict.insert\<close> refuses it, so \<open>insert\<close> returns false and leaves a list of two entries
  beside a dictionary of one. (The other mutations of the claim keep the invariant:
  \<open>mutations_preserve_invariant\<close> and \<open>invariant_sizes\<close> above.)
\<close>

theorem sset_insert_existing_key:
  "fst (insert_new sset_new ''x'' (1::real)) = True \<and>
   fst (insert_new (snd (insert_new sset_new ''x'' (1::real))) ''x'' (2::real)) = False \<and>
   lst (snd (insert_new (snd (insert_new sset_new ''x'' (1::real))) ''x'' (2::real))) = [0, 1] \<and>
   sset_size (snd (insert_new (snd (insert_new sset_new ''x'' (1::real))) ''x'' (2::real))) = 2 \<and>
   dom (dict (snd (insert_new (snd (insert_new sset_new ''x'' (1::real))) ''x'' (2::real)))) = {''x''} \<and>
   card (dom (dict (snd (insert_new (snd (insert_new sset_new ''x'' (1::real))) ''x'' (2::real))))) = 1"
  by (simp add: insert_new_def sset_new_def allocator_construct_def sset_insert_def
      insert_ordered_lst key_at_def score_at_def sset_size_def)

text \<open>
  Claim C4, at the inputs where the source departs from it. On the members
  (a,1), (b,2), (c,3): the range from rank 0 to rank 0 is empty, because
  \<open>rank_out_of_range\<close> tests \<open>end <= 0\<close>; so is the range (-3, -3), which normalises to
  the same ranks. An end index below \<open>-size\<close> is wrapped by the \<open>while\<close> loop, so the range
  (0, -5) holds the entries of rank 0 and 1. The range (-2, -1) is (b,2), (c,3).
  (\<open>fetch_by_rank_eq\<close> above gives the result for every pair of indices.)
\<close>

theorem fetch_by_rank_zero_zero:
  "fetch_by_rank sset_123 0 0 [] = [] \<and>
   fetch_by_rank sset_123 (-3) (-3) [] = [] \<and>
   fetch_by_rank sset_123 0 (-5) [] = [(''a'', 1), (''b'', 2)] \<and>
   fetch_by_rank sset_123 (-2) (-1) [] = [(''b'', 2), (''c'', 3)]"
  by (simp add: fetch_by_rank_def sset_123_eq rank_out_of_range_def end_loop_neg key_at_def score_at_def)

section \<open>Block cursor\<close>

subsection \<open>A reader as the constructor builds it\<close>

lemma varint32_loop_numeral:
  "varint32_loop (numeral n) data p limit shift result =
     (if p < limit \<and> p < length data then
        (let byte = (of_char (data ! p) :: nat) in
         if 128 \<le> byte
         then varint32_loop (pred_numeral n) data (p + 1) limit (shift + 7) (result + (byte - 128) * 2 ^ shift)
         else Some ((result + byte * 2 ^ shift) mod 2 ^ 32, p + 1))
      else None)"
  by (simp add: numeral_eq_Suc)

lemma dec_mod32:
  fixes m :: nat
  assumes "0 < m" "m < 2 ^ 32"
  shows "(m + 2 ^ 32 - 1) mod 2 ^ 32 = m - 1"
proof -
  from assms(1) obtain k where k: "m = Suc k" by (cases m) auto
  have "(k + 2 ^ 32) mod 2 ^ 32 = k mod (2 ^ 32 :: nat)" by (rule mod_add_self2)
  also from assms(2) k have "k mod 2 ^ 32 = k" by simp
  finally show ?thesis unfolding k by simp
qed

text \<open>
  With the limit \<open>data_ + restarts_\<close> at offset 0 no entry decodes, and \<open>parse_next_key\<close>
  finds every position at or behind the limit.
\<close>

lemma decode_entry_limit_0: "decode_entry data p 0 = None"
  by (simp add: decode_entry_def get_varint32_def varint32_loop_numeral)

lemma parse_next_key_limit_0:
  assumes "restarts_offset r = 0"
  shows "\<exists>r'. parse_next_key r = Some (False, r') \<and> current_offset r' = 0 \<and> restarts_offset r' = 0"
  using assms by (simp add: parse_next_key_def Let_def)

lemma seek_scan_limit_0:
  assumes "restarts_offset r = 0"
  shows "\<exists>r'. seek_scan r target = Some r' \<and> block_reader_eof r'"
proof -
  from parse_next_key_limit_0 [OF assms] obtain r'
    where p: "parse_next_key r = Some (False, r')" and c: "current_offset r' = 0"
      and o: "restarts_offset r' = 0"
    by blast
  from p have "seek_scan r target = Some r'"
    by (subst seek_scan.simps) simp
  moreover from c o have "block_reader_eof r'" by (simp add: block_reader_eof_def)
  ultimately show ?thesis by blast
qed

lemma restart_search_one:
  "restart_search r target 0 0 = Some (Inr 0)"
  by (subst restart_search.simps) simp

lemma restart_search_limit_0:
  assumes "restarts_offset r = 0" and "2 \<le> num_restarts r" and "num_restarts r < 2 ^ 32"
    and "4 * num_restarts r \<le> length (data_view r)"
  shows "restart_search r target 0 (num_restarts r - 1) = Some (Inl ())"
proof -
  define n where "n = num_restarts r"
  have n: "2 \<le> n" "n < 2 ^ 32" "4 * n \<le> length (data_view r)"
    using assms unfolding n_def by simp_all
  have mid: "((0 + (n - 1) + 1) mod 2 ^ 32) div 2 = n div 2"
    using n by simp
  have "n div 2 < n" using n by simp
  moreover have "n div 2 * 4 + 4 \<le> length (data_view r)" using n by simp
  ultimately have g: "get_restart_point r (n div 2) = Some (fixed32_at (data_view r) (n div 2 * 4))"
    using assms(1) by (simp add: get_restart_point_def decode_fixed32_def n_def)
  have lt: "0 < n - 1" using n by simp
  show ?thesis
    unfolding n_def [symmetric]
    by (subst restart_search.simps) (simp only: lt mid, simp add: Let_def g assms(1) decode_entry_limit_0)
qed

subsection \<open>Claim on the block cursor\<close>

text \<open>
  Claim C8, where the source departs from it. The constructor of \<open>block_reader\<close>
  (lines 146-157) initialises \<open>_restarts_offset\<close> with 0 and no member function assigns it,
  so for a reader the code builds the limit \<open>data_ + restarts_\<close> of the entries is the start
  of the buffer. For every block that holds its restart array, of one restart point or of
  more, and for every target, \<open>seek\<close> returns with the cursor exhausted: with one restart
  point the linear scan finds its first position behind the limit, with more the binary
  search finds that the entry at the middle restart point does not decode and sets \<open>_eof\<close>.
  So the cursor is not left on the first entry whose key is \<open>\<ge>\<close> the target when the block
  has one.
\<close>

theorem block_seek_constructed_exhausted:
  assumes "0 < n" and "n < 2 ^ 32" and "4 * n \<le> length data"
  shows "\<exists>r. block_seek (make_block_reader data n) target = Some r \<and> block_reader_eof r"
proof (cases "n = 1")
  case True
  define r0 where "r0 = make_block_reader data 1"
  have s: "restart_search r0 target 0 ((num_restarts r0 + 2 ^ 32 - 1) mod 2 ^ 32) = Some (Inr 0)"
    by (simp add: r0_def make_block_reader_def restart_search_one)
  from assms True have "4 \<le> length data" by simp
  then obtain r1 where r1: "seek_to_restart_point r0 0 = Some r1" and o: "restarts_offset r1 = 0"
    by (simp add: seek_to_restart_point_def get_restart_point_def decode_fixed32_def r0_def
        make_block_reader_def)
  from seek_scan_limit_0 [OF o, of target] obtain r'
    where "seek_scan r1 target = Some r'" and "block_reader_eof r'" by blast
  with s r1 have "block_seek r0 target = Some r' \<and> block_reader_eof r'"
    by (simp add: block_seek_def)
  with True show ?thesis unfolding r0_def by blast
next
  case False
  define r0 where "r0 = make_block_reader data n"
  have f: "restarts_offset r0 = 0" "num_restarts r0 = n" "data_view r0 = data"
    by (simp_all add: r0_def make_block_reader_def)
  from assms False have n2: "2 \<le> n" by simp
  have "(num_restarts r0 + 2 ^ 32 - 1) mod 2 ^ 32 = num_restarts r0 - 1"
    unfolding f(2) by (rule dec_mod32 [OF assms(1,2)])
  moreover have "restart_search r0 target 0 (num_restarts r0 - 1) = Some (Inl ())"
    using assms n2 f by (intro restart_search_limit_0) simp_all
  ultimately have "block_seek r0 target = Some (r0\<lparr>block_eof := True\<rparr>)"
    by (simp add: block_seek_def)
  moreover have "block_reader_eof (r0\<lparr>block_eof := True\<rparr>)"
    by (simp add: block_reader_eof_def)
  ultimately show ?thesis unfolding r0_def by blast
qed

text \<open>
  The failing inputs. The single-entry block holds the entry (a, 1) and \<open>block_abb\<close> the
  entries a, ab, b; in both the first entry has the key a. \<open>seek\<close> for the target a leaves
  the reader the constructor builds exhausted, where the claim has it on the entry a.
\<close>

theorem block_seek_constructed_exhausted_witness:
  "0 < (1::nat) \<and> (1::nat) < 2 ^ 32 \<and> 4 * 1 \<le> length block_a \<and>
   entries_from block_a 5 0 [] =
     Some [\<lparr>e_offset = 0, e_shared = 0, e_key = ''a'', e_value = (4, 1)\<rparr>] \<and>
   (\<exists>r. block_seek (make_block_reader block_a 1) ''a'' = Some r \<and> block_reader_eof r) \<and>
   0 < (2::nat) \<and> (2::nat) < 2 ^ 32 \<and> 4 * 2 \<le> length block_abb \<and>
   entries_from block_abb 15 0 [] =
     Some [\<lparr>e_offset = 0, e_shared = 0, e_key = ''a'', e_value = (4, 1)\<rparr>,
           \<lparr>e_offset = 5, e_shared = 1, e_key = ''ab'', e_value = (9, 1)\<rparr>,
           \<lparr>e_offset = 10, e_shared = 0, e_key = ''b'', e_value = (14, 1)\<rparr>] \<and>
   (\<exists>r. block_seek (make_block_reader block_abb 2) ''a'' = Some r \<and> block_reader_eof r)"
proof -
  have a: "entries_from block_a 5 0 [] =
     Some [\<lparr>e_offset = 0, e_shared = 0, e_key = ''a'', e_value = (4, 1)\<rparr>]"
    by (simp add: entries_from.simps block_a_def decode_entry_def get_varint32_def
        varint32_loop_numeral sub_bytes_def)
  have b: "entries_from block_abb 15 0 [] =
     Some [\<lparr>e_offset = 0, e_shared = 0, e_key = ''a'', e_value = (4, 1)\<rparr>,
           \<lparr>e_offset = 5, e_shared = 1, e_key = ''ab'', e_value = (9, 1)\<rparr>,
           \<lparr>e_offset = 10, e_shared = 0, e_key = ''b'', e_value = (14, 1)\<rparr>]"
    by (simp add: entries_from.simps block_abb_def decode_entry_def get_varint32_def
        varint32_loop_numeral sub_bytes_def)
  have la: "length block_a = 13" by (simp add: block_a_def)
  have lb: "length block_abb = 27" by (simp add: block_abb_def)
  from block_seek_constructed_exhausted [of 1 block_a "''a''"]
    block_seek_constructed_exhausted [of 2 block_abb "''a''"] a b la lb
  show ?thesis by simp
qed

section \<open>Merge over table cursors\<close>

subsection \<open>The end of the merged stream is never reported\<close>

lemma foldl_and_False: "foldl (\<lambda>all_eof sstable. all_eof \<and> P sstable) False cs = False"
  by (induction cs) simp_all

lemma combined_eof_flag: "combined_eof r = eof_flag r"
  by (simp add: combined_eof_def foldl_and_False)

lemma find_smallest_one_Some:
  assumes "sstables r \<noteq> []"
  shows "\<exists>i. find_smallest_one r = Some (r\<lparr>current_ptr := Some i\<rparr>)"
proof -
  let ?i = "foldl (\<lambda>smallest i.
      if less_comparator (sstables r ! i) (sstables r ! smallest) then i else smallest)
    0 [1 ..< length (sstables r)]"
  from assms have "find_smallest_one r = Some (r\<lparr>current_ptr := Some ?i\<rparr>)"
    by (simp add: find_smallest_one_def Let_def)
  then show ?thesis ..
qed

lemma positioned_Some:
  assumes "sstables r \<noteq> []" and "length cs = length (sstables r)"
  shows "\<exists>r'. find_smallest_one (r\<lparr>sstables := cs\<rparr>) = Some r' \<and> eof_flag r' = eof_flag r \<and>
           sstables r' \<noteq> [] \<and> current_ptr r' \<noteq> None"
proof -
  from assms have "sstables (r\<lparr>sstables := cs\<rparr>) \<noteq> []" by auto
  from find_smallest_one_Some [OF this] obtain i where
    "find_smallest_one (r\<lparr>sstables := cs\<rparr>) = Some (r\<lparr>sstables := cs, current_ptr := Some i\<rparr>)"
    by auto
  with assms show ?thesis by auto
qed

lemma call_Some:
  assumes "sstables r \<noteq> []"
  shows "\<exists>r'. call c r = Some r' \<and> eof_flag r' = eof_flag r \<and> sstables r' \<noteq> [] \<and>
           current_ptr r' \<noteq> None"
proof (cases c)
  case Seek_to_first
  with positioned_Some [OF assms, of "map cursor_seek_to_first (sstables r)"]
  show ?thesis by (simp add: seek_to_first_def)
next
  case Seek_to_last
  with positioned_Some [OF assms, of "map cursor_seek_to_last (sstables r)"]
  show ?thesis by (simp add: seek_to_last_def)
next
  case (Seek k)
  with positioned_Some [OF assms, of "map (cursor_seek k) (sstables r)"]
  show ?thesis by (simp add: combined_seek_def)
next
  case Next
  with positioned_Some [OF assms, of "map (\<lambda>i. if Some i = current_ptr r then cursor_next (sstables r ! i)
                                  else sstables r ! i) [0 ..< length (sstables r)]"]
  show ?thesis by (simp add: combined_next_def)
qed

lemma calls_never_eof:
  assumes "sstables r \<noteq> []" and "\<not> eof_flag r"
  shows "\<exists>r'. calls cs r = Some r' \<and> \<not> combined_eof r'"
  using assms
proof (induction cs arbitrary: r)
  case Nil
  then show ?case by (simp add: combined_eof_flag)
next
  case (Cons c cs)
  from call_Some [OF Cons.prems(1), of c] obtain r1 where
    r1: "call c r = Some r1" "eof_flag r1 = eof_flag r" "sstables r1 \<noteq> []" by blast
  with Cons.prems(2) Cons.IH [of r1] show ?case by simp
qed

lemma iterate_never_eof:
  assumes "sstables r \<noteq> []" "\<not> eof_flag r" "current_ptr r \<noteq> None"
  shows "\<exists>ks. iterate fuel r yielded = Some (ks, False) \<and> length ks = length yielded + fuel"
  using assms
proof (induction fuel arbitrary: r yielded)
  case 0
  then show ?case by simp
next
  case (Suc fuel)
  from Suc.prems(3) obtain i where i: "current_ptr r = Some i" by auto
  from call_Some [OF Suc.prems(1), of Next] obtain r' where r':
    "combined_next r = Some r'" "eof_flag r' = eof_flag r" "sstables r' \<noteq> []" "current_ptr r' \<noteq> None"
    by auto
  from Suc.IH [of r' "yielded @ [fst (cursor_current (sstables r ! i))]"] r' Suc.prems(2)
  obtain ks where "iterate fuel r' (yielded @ [fst (cursor_current (sstables r ! i))]) = Some (ks, False)"
    "length ks = length yielded + Suc fuel" by auto
  with Suc.prems(2) i r'(1) show ?case
    by (simp add: combined_eof_flag combined_current_def)
qed

lemmas merge_eval = seek_to_first_def make_combined_sstables_reader_def find_smallest_one_def
  make_sstable_reader_def cursor_seek_to_first_def cursor_next_def less_comparator_def
  cursor_current_def combined_current_def combined_next_def combined_eof_flag

lemma seek_to_first_T1_T2: "seek_to_first (make_combined_sstables_reader [T1, T2]) = Some reader_T1_T2"
  by (simp add: merge_eval T1_def T2_def reader_T1_T2_def)

lemma iterate_5: "iterate 5 reader_T1_T2 [] = Some ([''a'', ''b'', ''c'', ''d'', ''e''], False)"
  by (simp add: numeral_eq_Suc merge_eval T1_def T2_def reader_T1_T2_def)

lemma iterate_8:
  "iterate 8 reader_T1_T2 [] = Some ([''a'', ''b'', ''c'', ''d'', ''e'', ''e'', ''e'', ''e''], False)"
  by (simp add: numeral_eq_Suc merge_eval T1_def T2_def reader_T1_T2_def)

subsection \<open>Claims on the merge\<close>

text \<open>
  Claim C1, at the input where the source departs from it. Over T1 = [a, c, e] and
  T2 = [b, d, f] the iteration yields a, b, c, d, e and then goes on without end:
  \<open>eof()\<close> is false after every number of \<open>next\<close> calls. \<open>find_smallest_one\<close> compares the
  current keys of all sub-cursors, the exhausted ones included, so once T1 is exhausted
  with its last key e it stays the smallest one, e is yielded again at every round and f
  is never reached.
\<close>

theorem combined_iteration_never_eof:
  "seek_to_first (make_combined_sstables_reader [T1, T2]) = Some reader_T1_T2 \<and>
   iterate 5 reader_T1_T2 [] = Some ([''a'', ''b'', ''c'', ''d'', ''e''], False) \<and>
   iterate 8 reader_T1_T2 [] =
     Some ([''a'', ''b'', ''c'', ''d'', ''e'', ''e'', ''e'', ''e''], False) \<and>
   (\<forall>fuel. \<exists>ks. iterate fuel reader_T1_T2 [] = Some (ks, False) \<and> length ks = fuel)"
proof -
  have "\<exists>ks. iterate fuel reader_T1_T2 [] = Some (ks, False) \<and> length ks = fuel" for fuel
    using iterate_never_eof [of reader_T1_T2 fuel "[]"] by (simp add: reader_T1_T2_def)
  with seek_to_first_T1_T2 iterate_5 iterate_8 show ?thesis by blast
qed

text \<open>
  Claim C2, at the inputs where the source departs from it. Over the single table [a],
  after \<open>seek_to_first\<close> and one \<open>next\<close> the only sub-cursor is exhausted and \<open>eof()\<close> is
  false; over a single table without entries the same holds right after \<open>seek_to_first\<close>.
  \<open>eof()\<close> starts its conjunction over the sub-cursors from \<open>false\<close>, so it returns the flag
  \<open>_eof\<close>, whatever the sub-cursors say.
\<close>

theorem combined_eof_all_exhausted:
  "calls [Seek_to_first, Next] (make_combined_sstables_reader [make_sstable_reader [(''a'', ''1'')]])
     = Some reader_a_done \<and>
   list_all cursor_eof (sstables reader_a_done) \<and> combined_eof reader_a_done = False \<and>
   calls [Seek_to_first] (make_combined_sstables_reader [make_sstable_reader []]) = Some reader_empty \<and>
   list_all cursor_eof (sstables reader_empty) \<and> combined_eof reader_empty = False \<and>
   combined_eof r = eof_flag r"
proof -
  have "calls [Seek_to_first, Next] (make_combined_sstables_reader [make_sstable_reader [(''a'', ''1'')]])
     = Some reader_a_done"
    by (simp add: merge_eval reader_a_done_def)
  moreover have "calls [Seek_to_first] (make_combined_sstables_reader [make_sstable_reader []]) = Some reader_empty"
    by (simp add: merge_eval reader_empty_def)
  moreover have "list_all cursor_eof (sstables reader_a_done)" "list_all cursor_eof (sstables reader_empty)"
    by (simp_all add: reader_a_done_def reader_empty_def cursor_eof_def)
  moreover have "combined_eof reader_a_done = False" "combined_eof reader_empty = False"
    by (simp_all add: combined_eof_flag reader_a_done_def reader_empty_def)
  ultimately show ?thesis by (simp add: combined_eof_flag)
qed

section \<open>Opening a table\<close>

subsection \<open>Failure leaves the table cache alone\<close>

lemma open_body_error_cache:
  "fst (open_body env tcache bcache file opts) = Inl e \<Longrightarrow>
   fst (snd (open_body env tcache bcache file opts)) = tcache"
  by (auto simp: open_body_def Let_def split: sum.splits if_splits option.splits prod.splits)

lemma handle_exception_cache: "fst (snd (handle_exception res)) = fst (snd res)"
  by (cases res) (auto simp: handle_exception_def split: sum.splits)

lemma handle_exception_error:
  "fst (handle_exception res) = Inl e \<Longrightarrow> e = redis_io_exception \<and> (\<exists>e'. fst res = Inl e')"
  by (cases res) (auto simp: handle_exception_def split: sum.splits)

lemma open_short:
  "open_sstable example_env [] [] ''short.sst'' example_options = (Inl redis_io_exception, [], [])"
  by (simp add: open_sstable_def open_body_def handle_exception_def example_env_def)

subsection \<open>Claim on opening a table\<close>

text \<open>
  Claim C6 as stated, at the example: opening the file of \<open>footer_length - 1\<close> zero bytes
  fails, but with \<open>redis::io_exception\<close> and not with \<open>corrupt_format\<close>. The size check fails
  the future; the handler at the end of the chain replaces every exception by
  \<open>redis::io_exception\<close>.
\<close>

theorem open_sstable_corrupt_format_counterexample:
  "open_file_dma example_env ''short.sst'' = Inr (''short.sst'', replicate 47 (CHR 0x00)) \<and>
   file_size example_env (''short.sst'', replicate 47 (CHR 0x00)) = Inr (kEncodedLength example_env - 1) \<and>
   fst (open_sstable example_env [] [] ''short.sst'' example_options) = Inl redis_io_exception \<and>
   fst (open_sstable example_env [] [] ''short.sst'' example_options) \<noteq> Inl corrupt_format"
  by (simp add: open_short) (simp add: example_env_def)

text \<open>
  Claim C6, amended. When the file opens, is not in the table cache and is shorter than
  the footer, \<open>open_sstable\<close> fails with \<open>redis::io_exception\<close> and leaves both caches as they
  were; and whenever \<open>open_sstable\<close> fails, with whatever exception and at whatever step, the
  table cache is the one it started with.
\<close>

theorem open_sstable_failure:
  "(open_file_dma env fname = Inr file \<and> table_cache_find env tcache fname = None \<and>
    file_size env file = Inr sz \<and> sz < kEncodedLength env \<longrightarrow>
      open_sstable env tcache bcache fname opts = (Inl redis_io_exception, tcache, bcache)) \<and>
   (fst (open_sstable env tcache bcache fname opts) = Inl e \<longrightarrow>
      fst (snd (open_sstable env tcache bcache fname opts)) = tcache)"
proof (intro conjI impI)
  assume "open_file_dma env fname = Inr file \<and> table_cache_find env tcache fname = None \<and>
    file_size env file = Inr sz \<and> sz < kEncodedLength env"
  then show "open_sstable env tcache bcache fname opts = (Inl redis_io_exception, tcache, bcache)"
    by (simp add: open_sstable_def open_body_def handle_exception_def)
next
  assume err: "fst (open_sstable env tcache bcache fname opts) = Inl e"
  show "fst (snd (open_sstable env tcache bcache fname opts)) = tcache"
  proof (cases "open_file_dma env fname")
    case (Inl a)
    then show ?thesis by (simp add: open_sstable_def)
  next
    case (Inr fl)
    show ?thesis
    proof (cases "table_cache_find env tcache fname")
      case None
      with Inr err have "fst (handle_exception (open_body env tcache bcache fl opts)) = Inl e"
        by (simp add: open_sstable_def)
      from handle_exception_error [OF this] obtain e' where
        "fst (open_body env tcache bcache fl opts) = Inl e'" by blast
      from open_body_error_cache [OF this] None Inr show ?thesis
        by (simp add: open_sstable_def handle_exception_cache)
    next
      case (Some t)
      with Inr show ?thesis by (simp add: open_sstable_def)
    qed
  qed
qed

theorem open_sstable_failure_witness:
  "open_file_dma example_env ''short.sst'' = Inr (''short.sst'', replicate 47 (CHR 0x00)) \<and>
   table_cache_find example_env [] ''short.sst'' = None \<and>
   file_size example_env (''short.sst'', replicate 47 (CHR 0x00)) = Inr 47 \<and>
   47 < kEncodedLength example_env \<and>
   open_sstable example_env [] [] ''short.sst'' example_options = (Inl redis_io_exception, [], []) \<and>
   fst (snd (open_sstable example_env [] [] ''short.sst'' example_options)) = []"
proof -
  have a: "open_file_dma example_env ''short.sst'' = Inr (''short.sst'', replicate 47 (CHR 0x00))"
    "table_cache_find example_env [] ''short.sst'' = None"
    "file_size example_env (''short.sst'', replicate 47 (CHR 0x00)) = Inr 47"
    "47 < kEncodedLength example_env"
    by (simp_all add: example_env_def)
  from open_sstable_failure [of example_env "''short.sst''" "(''short.sst'', replicate 47 (CHR 0x00))"
      "[]" 47 "[]" example_options redis_io_exception] a
  show ?thesis by simp
qed

end
